theory Spec2Isabelle
  imports Complex_Main "HOL-Library.Monad_Syntax"
begin

section \<open>Barnes-Hut quadtree: data model\<close>

text \<open>
  The embedding follows \<^verbatim>\<open>src/main.cc\<close>, namespace \<^verbatim>\<open>bh\<close>. The source computes
  in \<^verbatim>\<open>float\<close>, the IEEE binary32 format, and its functions are embedded twice.

  In the first embedding every \<^verbatim>\<open>float\<close> is a \<^typ>\<open>real\<close> and arithmetic is exact;
  rounding, overflow, underflow and NaN are outside it. It shows what the algorithm
  does, and a theorem about its functions is a statement in exact arithmetic.

  In the second embedding, whose names end in \<open>_b32\<close>, every operation rounds its exact
  result to binary32, as the program does. It shows what the program computes where
  that differs from exact arithmetic by more than the last bits of a result.
\<close>

subsection \<open>Configuration constants (lines 14-17)\<close>

definition THETA :: real where
  "THETA = 1 / 2"

definition GRAVITY_CONSTANT :: real where
  "GRAVITY_CONSTANT = 1 / 10"

definition TIME_STEP :: real where
  "TIME_STEP = 1"

definition SOFTENING :: real where
  "SOFTENING = 15"

subsection \<open>\<^verbatim>\<open>sf::Vector2f\<close> and \<^verbatim>\<open>sf::FloatRect\<close> (SFML 2)\<close>

text \<open>
  A vector has the two fields \<^verbatim>\<open>x\<close> and \<^verbatim>\<open>y\<close> (here \<open>vx\<close>, \<open>vy\<close>); its operators
  work componentwise, and \<^verbatim>\<open>==\<close> compares both components.
\<close>

datatype Vector2f = Vector2f (vx: real) (vy: real)

definition vec_add :: "Vector2f \<Rightarrow> Vector2f \<Rightarrow> Vector2f" where
  "vec_add a b = Vector2f (vx a + vx b) (vy a + vy b)"

definition vec_sub :: "Vector2f \<Rightarrow> Vector2f \<Rightarrow> Vector2f" where
  "vec_sub a b = Vector2f (vx a - vx b) (vy a - vy b)"

definition vec_mul :: "Vector2f \<Rightarrow> real \<Rightarrow> Vector2f" where
  "vec_mul a s = Vector2f (vx a * s) (vy a * s)"

definition vec_div :: "Vector2f \<Rightarrow> real \<Rightarrow> Vector2f" where
  "vec_div a s = Vector2f (vx a / s) (vy a / s)"

text \<open>
  A rectangle is given by a corner and a size. \<^verbatim>\<open>sf::Rect<T>::contains\<close> of SFML 2
  allows negative sizes: it takes the minimum and the maximum of each axis first, and
  the rectangle is closed at the minimum and open at the maximum.
\<close>

record FloatRect =
  left :: real
  top' :: real
  width :: real
  height :: real

definition contains :: "FloatRect \<Rightarrow> Vector2f \<Rightarrow> bool" where
  "contains r v =
     (let minX = min (left r) (left r + width r);
          maxX = max (left r) (left r + width r);
          minY = min (top' r) (top' r + height r);
          maxY = max (top' r) (top' r + height r)
      in vx v \<ge> minX \<and> vx v < maxX \<and> vy v \<ge> minY \<and> vy v < maxY)"

subsection \<open>\<^verbatim>\<open>point_t\<close> and \<^verbatim>\<open>quad_node_t\<close> (lines 19-49)\<close>

record point_t =
  mass :: real
  position :: Vector2f
  velocity :: Vector2f

definition point_init :: "real \<Rightarrow> Vector2f \<Rightarrow> Vector2f \<Rightarrow> point_t" where
  "point_init m pos vel = \<lparr>mass = m, position = pos, velocity = vel\<rparr>"

text \<open>
  A node owns its children, so the pointer structure is a tree. The field \<open>children\<close>
  stands for the array of four child pointers: \<open>[]\<close> is the array of four null pointers
  that \<^verbatim>\<open>quad_node_init\<close> leaves, and otherwise the list holds the children in index
  order. \<^verbatim>\<open>quad_node_subdivide\<close> is the only writer of the array and fills all four
  slots at once, so no node has some children null and others not.
\<close>

datatype quad_node_t =
  Quad_node (total_mass: real) (center_of_mass: Vector2f) (boundary: FloatRect)
            (point: "point_t option") (children: "quad_node_t list")

definition quad_node_init :: "FloatRect \<Rightarrow> quad_node_t" where
  "quad_node_init b = Quad_node 0 (Vector2f 0 0) b None []"

definition quad_node_is_leaf :: "quad_node_t \<Rightarrow> bool" where
  "quad_node_is_leaf node = (children node = [])"

section \<open>Tree construction (lines 71-116)\<close>

definition quadrants :: "FloatRect \<Rightarrow> FloatRect list" where
  "quadrants b =
     (let cx = left b + width b / 2;
          cy = top' b + height b / 2
      in [\<lparr>left = left b, top' = top' b, width = width b / 2, height = height b / 2\<rparr>,
          \<lparr>left = cx, top' = top' b, width = width b / 2, height = height b / 2\<rparr>,
          \<lparr>left = left b, top' = cy, width = width b / 2, height = height b / 2\<rparr>,
          \<lparr>left = cx, top' = cy, width = width b / 2, height = height b / 2\<rparr>])"

definition quad_node_subdivide :: "quad_node_t \<Rightarrow> quad_node_t" where
  "quad_node_subdivide node =
     Quad_node (total_mass node) (center_of_mass node) (boundary node) (point node)
               (map quad_node_init (quadrants (boundary node)))"

text \<open>
  The loop \<^verbatim>\<open>for (auto child : node->children) f (child)\<close> over calls that may not
  return: the children are visited in index order, and the loop returns only when every
  call has.
\<close>

primrec for_children :: "(quad_node_t \<Rightarrow> quad_node_t option) \<Rightarrow> quad_node_t list
    \<Rightarrow> quad_node_t list option" where
  "for_children f [] = Some []"
| "for_children f (c # cs) =
     (case f c of
        None \<Rightarrow> None
      | Some c' \<Rightarrow> (case for_children f cs of None \<Rightarrow> None | Some cs' \<Rightarrow> Some (c' # cs')))"

text \<open>
  \<^verbatim>\<open>quad_node_insert\<close> has no bound on its recursion depth, so the model takes fuel: the
  first argument bounds the depth of nested calls, and \<open>None\<close> says that the fuel did
  not suffice. A call that returns \<open>None\<close> for every amount of fuel is a call of the
  source that never returns. The node is updated in place by the source; the model
  returns the updated node.
\<close>

fun quad_node_insert :: "nat \<Rightarrow> quad_node_t \<Rightarrow> point_t \<Rightarrow> quad_node_t option" where
  "quad_node_insert 0 node p = None"
| "quad_node_insert (Suc n) (Quad_node tm com b pt cs) p =
     (if \<not> contains b (position p) then Some (Quad_node tm com b pt cs)
      else if quad_node_is_leaf (Quad_node tm com b pt cs) then
        (case pt of
           None \<Rightarrow> Some (Quad_node tm com b (Some p) cs)
         | Some save \<Rightarrow> do {
             cs1 \<leftarrow> for_children (\<lambda>child. quad_node_insert n child save)
                     (children (quad_node_subdivide (Quad_node tm com b pt cs)));
             cs2 \<leftarrow> for_children (\<lambda>child. quad_node_insert n child p) cs1;
             Some (Quad_node tm com b None cs2)
           })
      else do {
        cs2 \<leftarrow> for_children (\<lambda>child. quad_node_insert n child p) cs;
        Some (Quad_node tm com b pt cs2)
      })"

text \<open>The insertion loop of \<^verbatim>\<open>main\<close> (lines 211-212).\<close>

fun insert_points :: "nat \<Rightarrow> quad_node_t \<Rightarrow> point_t list \<Rightarrow> quad_node_t option" where
  "insert_points n node [] = Some node"
| "insert_points n node (p # ps) =
     (case quad_node_insert n node p of
        None \<Rightarrow> None
      | Some node' \<Rightarrow> insert_points n node' ps)"

section \<open>Mass aggregation (lines 118-145)\<close>

fun quad_node_compute_mass :: "quad_node_t \<Rightarrow> quad_node_t" where
  "quad_node_compute_mass (Quad_node tm com b pt cs) =
     (if quad_node_is_leaf (Quad_node tm com b pt cs) then
        (case pt of
           Some p \<Rightarrow> Quad_node (mass p) (position p) b pt cs
         | None \<Rightarrow> Quad_node tm com b pt cs)
      else
        (let cs' = map quad_node_compute_mass cs;
             tm' = foldl (\<lambda>acc child. acc + total_mass child) 0 cs';
             com' = foldl (\<lambda>acc child.
                      vec_add acc (vec_mul (center_of_mass child) (total_mass child)))
                      (Vector2f 0 0) cs'
         in Quad_node tm' (if tm' > 0 then vec_div com' tm' else com') b pt cs'))"

section \<open>Force evaluation (lines 147-174)\<close>

text \<open>
  A float division by zero gives an infinity or a NaN (and is formally undefined in
  C++), while in HOL \<open>x / 0 = 0\<close>. The model checks every divisor of the source, in the
  order of evaluation, and makes a zero divisor a result of its own, so that a call
  which returns a point has divided by nonzero numbers only.
\<close>

datatype error = Division_by_zero

fun quad_node_compute_force :: "quad_node_t \<Rightarrow> point_t \<Rightarrow> error + point_t" where
  "quad_node_compute_force (Quad_node tm com b pt cs) p =
     (if tm = 0 \<or> position p = com then Inr p
      else
        (let direction = vec_sub com (position p);
             distance = sqrt (vx direction * vx direction + vy direction * vy direction
                              + SOFTENING * SOFTENING)
         in if distance = 0 then Inl Division_by_zero
            else
              (let ratio = width b / distance
               in if quad_node_is_leaf (Quad_node tm com b pt cs) \<or> ratio < THETA then
                    (if distance * distance + SOFTENING * SOFTENING = 0
                     then Inl Division_by_zero
                     else
                       (let force = GRAVITY_CONSTANT * tm * mass p
                                    / (distance * distance + SOFTENING * SOFTENING)
                        in if mass p = 0 then Inl Division_by_zero
                           else
                             (let acceleration =
                                    vec_div (vec_mul (vec_div direction distance) force)
                                            (mass p)
                              in Inr (p\<lparr>velocity :=
                                        vec_add (velocity p)
                                                (vec_mul acceleration TIME_STEP)\<rparr>))))
                  else
                    fold (\<lambda>child r. case r of
                                      Inl e \<Rightarrow> Inl e
                                    | Inr q \<Rightarrow> quad_node_compute_force child q)
                         cs (Inr p))))"

text \<open>
  The change of velocity that one call makes, read off its result. It is the
  acceleration times \<open>TIME_STEP\<close> that the call has applied.
\<close>

definition velocity_change :: "quad_node_t \<Rightarrow> point_t \<Rightarrow> Vector2f" where
  "velocity_change node p =
     (case quad_node_compute_force node p of
        Inr q \<Rightarrow> vec_sub (velocity q) (velocity p)
      | Inl e \<Rightarrow> Vector2f 0 0)"

text \<open>
  The traversal of \<^verbatim>\<open>quad_node_compute_force\<close> with the threshold as a parameter
  (the source fixes it to \<open>THETA\<close>), counting instead of accelerating: the
  number of leaf nodes at which the force branch is taken, that is, the number of
  exact point-to-point interactions of one evaluation.
\<close>

fun exact_interactions :: "real \<Rightarrow> quad_node_t \<Rightarrow> point_t \<Rightarrow> nat" where
  "exact_interactions theta (Quad_node tm com b pt cs) p =
     (if tm = 0 \<or> position p = com then 0
      else
        (let direction = vec_sub com (position p);
             distance = sqrt (vx direction * vx direction + vy direction * vy direction
                              + SOFTENING * SOFTENING);
             ratio = width b / distance
         in if quad_node_is_leaf (Quad_node tm com b pt cs) \<or> ratio < theta then
              (if quad_node_is_leaf (Quad_node tm com b pt cs) then 1 else 0)
            else sum_list (map (\<lambda>child. exact_interactions theta child p) cs)))"

section \<open>One simulation tick (\<^verbatim>\<open>main\<close>, lines 210-220)\<close>

text \<open>
  \<^verbatim>\<open>main\<close> builds the tree over the rectangle \<open>{0, 0, 800, 800}\<close>; the rectangle is
  a parameter here. The tree is built from all points and aggregated; then, for every
  point of the collection, the force is evaluated and the position advanced. The
  iterations of that loop touch one point each, so their order does not matter.
\<close>

definition world_boundary :: FloatRect where
  "world_boundary = \<lparr>left = 0, top' = 0, width = 800, height = 800\<rparr>"

definition build_tree :: "nat \<Rightarrow> FloatRect \<Rightarrow> point_t list \<Rightarrow> quad_node_t option" where
  "build_tree n b ps =
     map_option quad_node_compute_mass (insert_points n (quad_node_init b) ps)"

definition step_point :: "quad_node_t \<Rightarrow> point_t \<Rightarrow> error + point_t" where
  "step_point node p =
     (case quad_node_compute_force node p of
        Inl e \<Rightarrow> Inl e
      | Inr q \<Rightarrow> Inr (q\<lparr>position := vec_add (position q) (vec_mul (velocity q) TIME_STEP)\<rparr>))"

definition simulation_tick :: "nat \<Rightarrow> FloatRect \<Rightarrow> point_t list
    \<Rightarrow> (error + point_t) list option" where
  "simulation_tick n b ps =
     (case build_tree n b ps of
        None \<Rightarrow> None
      | Some node \<Rightarrow> Some (map (step_point node) ps))"

section \<open>The points of a tree and the invariant of built trees\<close>

text \<open>
  The points stored in a subtree, in index order. Only a leaf stores a point: the code
  reads \<open>point\<close> in leaves only, and \<^verbatim>\<open>quad_node_insert\<close> resets it when the leaf is
  subdivided.
\<close>

fun quad_node_points :: "quad_node_t \<Rightarrow> point_t list" where
  "quad_node_points (Quad_node tm com b pt cs) =
     (if quad_node_is_leaf (Quad_node tm com b pt cs)
      then (case pt of None \<Rightarrow> [] | Some p \<Rightarrow> [p])
      else concat (map quad_node_points cs))"

text \<open>
  The invariant of the trees that insertions build from a fresh root: the point of a
  leaf lies in the boundary of the leaf, a leaf without a point still has the total
  mass 0 that \<^verbatim>\<open>quad_node_init\<close> gave it, and the children of an internal node
  have the four quadrants of its boundary, in index order.
\<close>

fun well_formed :: "quad_node_t \<Rightarrow> bool" where
  "well_formed (Quad_node tm com b pt cs) =
     (if quad_node_is_leaf (Quad_node tm com b pt cs)
      then (case pt of None \<Rightarrow> tm = 0 | Some p \<Rightarrow> contains b (position p))
      else map boundary cs = quadrants b \<and> list_all well_formed cs)"

text \<open>The Euclidean length of a vector.\<close>

definition magnitude :: "Vector2f \<Rightarrow> real" where
  "magnitude v = sqrt (vx v * vx v + vy v * vy v)"

section \<open>The end-to-end scenario\<close>

text \<open>
  The aggregated tree of two points of mass 1 at \<open>(0, 0)\<close> and \<open>(100, 0)\<close> in the
  rectangle of \<^verbatim>\<open>main\<close>: the third subdivision separates the points.
\<close>

definition two_point_tree :: quad_node_t where
  "two_point_tree =
     Quad_node 2 (Vector2f 50 0) \<lparr>left = 0, top' = 0, width = 800, height = 800\<rparr> None
      [Quad_node 2 (Vector2f 50 0) \<lparr>left = 0, top' = 0, width = 400, height = 400\<rparr> None
        [Quad_node 2 (Vector2f 50 0) \<lparr>left = 0, top' = 0, width = 200, height = 200\<rparr> None
          [Quad_node 1 (Vector2f 0 0) \<lparr>left = 0, top' = 0, width = 100, height = 100\<rparr>
             (Some \<lparr>mass = 1, position = Vector2f 0 0, velocity = Vector2f 0 0\<rparr>) [],
           Quad_node 1 (Vector2f 100 0) \<lparr>left = 100, top' = 0, width = 100, height = 100\<rparr>
             (Some \<lparr>mass = 1, position = Vector2f 100 0, velocity = Vector2f 0 0\<rparr>) [],
           Quad_node 0 (Vector2f 0 0) \<lparr>left = 0, top' = 100, width = 100, height = 100\<rparr>
             None [],
           Quad_node 0 (Vector2f 0 0) \<lparr>left = 100, top' = 100, width = 100, height = 100\<rparr>
             None []],
         Quad_node 0 (Vector2f 0 0) \<lparr>left = 200, top' = 0, width = 200, height = 200\<rparr> None [],
         Quad_node 0 (Vector2f 0 0) \<lparr>left = 0, top' = 200, width = 200, height = 200\<rparr> None [],
         Quad_node 0 (Vector2f 0 0) \<lparr>left = 200, top' = 200, width = 200, height = 200\<rparr>
           None []],
       Quad_node 0 (Vector2f 0 0) \<lparr>left = 400, top' = 0, width = 400, height = 400\<rparr> None [],
       Quad_node 0 (Vector2f 0 0) \<lparr>left = 0, top' = 400, width = 400, height = 400\<rparr> None [],
       Quad_node 0 (Vector2f 0 0) \<lparr>left = 400, top' = 400, width = 400, height = 400\<rparr> None []]"

section \<open>Binary32 arithmetic\<close>

text \<open>
  A finite binary32 number is \<open>m * 2 ^ e\<close> with an integer \<open>m\<close> of magnitude below
  \<open>2 ^ 24\<close> and an integer \<open>e\<close> from \<open>-149\<close> to \<open>104\<close>. Rounding is to the nearest such number, and to the
  one with the even \<open>m\<close> when two are equally near (the default rounding mode).
\<close>

definition rne :: "real \<Rightarrow> int" where
  "rne y = (let f = \<lfloor>y\<rfloor>; d = y - of_int f
            in if d < 1 / 2 then f else if 1 / 2 < d then f + 1
               else if even f then f else f + 1)"

text \<open>
  A number below \<open>2 ^ 23\<close> in magnitude is doubled until it reaches \<open>2 ^ 23\<close>, rounded
  to an integer and halved back; the first argument bounds the number of doublings. A
  number of magnitude \<open>2 ^ 24\<close> or more is halved until it falls below \<open>2 ^ 24\<close>,
  rounded and doubled back.
\<close>

fun round_up :: "nat \<Rightarrow> real \<Rightarrow> real" where
  "round_up 0 x = of_int (rne x)"
| "round_up (Suc k) x =
     (if \<bar>x\<bar> < 2 ^ 23 then round_up k (2 * x) / 2 else of_int (rne x))"

fun round_down :: "nat \<Rightarrow> real \<Rightarrow> real" where
  "round_down 0 x = of_int (rne x)"
| "round_down (Suc k) x =
     (if 2 ^ 24 \<le> \<bar>x\<bar> then 2 * round_down k (x / 2) else of_int (rne x))"

text \<open>
  The binary32 number nearest to a real number. At most 149 doublings: the least
  quantum is \<open>1 / 2 ^ 149\<close>, that of the subnormal numbers, and a number of magnitude
  \<open>1 / 2 ^ 150\<close> or less becomes 0. Overflow is outside the model: in the program an
  operation whose result reaches \<open>2 ^ 128\<close> in magnitude gives an infinity, whereas
  here it is rounded like any other number. The second embedding describes the program
  on inputs whose computations stay below that size, as those on the positions and
  sizes of the rectangle of \<^verbatim>\<open>main\<close> do.
\<close>

definition binary32 :: "real \<Rightarrow> real" where
  "binary32 x =
     (if x = 0 then 0 else if \<bar>x\<bar> < 2 ^ 24 then round_up 149 x else round_down 104 x)"

text \<open>
  The operations of the source on \<^verbatim>\<open>float\<close>. IEEE 754 defines each of them, the
  square root included, as the exact result rounded. Every operation is rounded on its
  own: the operands are binary32 numbers, and neither a wider intermediate format nor a
  fused multiply-add is used.
\<close>

definition fadd :: "real \<Rightarrow> real \<Rightarrow> real" where
  "fadd a b = binary32 (a + b)"

definition fsub :: "real \<Rightarrow> real \<Rightarrow> real" where
  "fsub a b = binary32 (a - b)"

definition fmul :: "real \<Rightarrow> real \<Rightarrow> real" where
  "fmul a b = binary32 (a * b)"

definition fdiv :: "real \<Rightarrow> real \<Rightarrow> real" where
  "fdiv a b = binary32 (a / b)"

definition fsqrt :: "real \<Rightarrow> real" where
  "fsqrt a = binary32 (sqrt a)"

definition vec_add_b32 :: "Vector2f \<Rightarrow> Vector2f \<Rightarrow> Vector2f" where
  "vec_add_b32 a b = Vector2f (fadd (vx a) (vx b)) (fadd (vy a) (vy b))"

definition vec_sub_b32 :: "Vector2f \<Rightarrow> Vector2f \<Rightarrow> Vector2f" where
  "vec_sub_b32 a b = Vector2f (fsub (vx a) (vx b)) (fsub (vy a) (vy b))"

definition vec_mul_b32 :: "Vector2f \<Rightarrow> real \<Rightarrow> Vector2f" where
  "vec_mul_b32 a s = Vector2f (fmul (vx a) s) (fmul (vy a) s)"

definition vec_div_b32 :: "Vector2f \<Rightarrow> real \<Rightarrow> Vector2f" where
  "vec_div_b32 a s = Vector2f (fdiv (vx a) s) (fdiv (vy a) s)"

section \<open>The program in binary32\<close>

text \<open>
  The functions of the source once more, with every operation rounded. The literals
  \<^verbatim>\<open>0.5f\<close>, \<^verbatim>\<open>1.0f\<close> and \<^verbatim>\<open>15.0f\<close> are binary32 numbers; \<^verbatim>\<open>0.1f\<close> is the binary32
  number nearest to \<open>1 / 10\<close>. Comparisons are exact.
\<close>

definition GRAVITY_CONSTANT_b32 :: real where
  "GRAVITY_CONSTANT_b32 = binary32 GRAVITY_CONSTANT"

text \<open>
  \<^verbatim>\<open>sf::Rect<T>::contains\<close> computes the far edges as
  \<^verbatim>\<open>static_cast<T>(left + width)\<close> and \<^verbatim>\<open>static_cast<T>(top + height)\<close>.
\<close>

definition contains_b32 :: "FloatRect \<Rightarrow> Vector2f \<Rightarrow> bool" where
  "contains_b32 r v =
     (let minX = min (left r) (fadd (left r) (width r));
          maxX = max (left r) (fadd (left r) (width r));
          minY = min (top' r) (fadd (top' r) (height r));
          maxY = max (top' r) (fadd (top' r) (height r))
      in vx v \<ge> minX \<and> vx v < maxX \<and> vy v \<ge> minY \<and> vy v < maxY)"

definition quadrants_b32 :: "FloatRect \<Rightarrow> FloatRect list" where
  "quadrants_b32 b =
     (let cx = fadd (left b) (fdiv (width b) 2);
          cy = fadd (top' b) (fdiv (height b) 2)
      in [\<lparr>left = left b, top' = top' b,
            width = fdiv (width b) 2, height = fdiv (height b) 2\<rparr>,
          \<lparr>left = cx, top' = top' b,
            width = fdiv (width b) 2, height = fdiv (height b) 2\<rparr>,
          \<lparr>left = left b, top' = cy,
            width = fdiv (width b) 2, height = fdiv (height b) 2\<rparr>,
          \<lparr>left = cx, top' = cy,
            width = fdiv (width b) 2, height = fdiv (height b) 2\<rparr>])"

definition quad_node_subdivide_b32 :: "quad_node_t \<Rightarrow> quad_node_t" where
  "quad_node_subdivide_b32 node =
     Quad_node (total_mass node) (center_of_mass node) (boundary node) (point node)
               (map quad_node_init (quadrants_b32 (boundary node)))"

fun quad_node_insert_b32 :: "nat \<Rightarrow> quad_node_t \<Rightarrow> point_t \<Rightarrow> quad_node_t option" where
  "quad_node_insert_b32 0 node p = None"
| "quad_node_insert_b32 (Suc n) (Quad_node tm com b pt cs) p =
     (if \<not> contains_b32 b (position p) then Some (Quad_node tm com b pt cs)
      else if quad_node_is_leaf (Quad_node tm com b pt cs) then
        (case pt of
           None \<Rightarrow> Some (Quad_node tm com b (Some p) cs)
         | Some save \<Rightarrow> do {
             cs1 \<leftarrow> for_children (\<lambda>child. quad_node_insert_b32 n child save)
                     (children (quad_node_subdivide_b32 (Quad_node tm com b pt cs)));
             cs2 \<leftarrow> for_children (\<lambda>child. quad_node_insert_b32 n child p) cs1;
             Some (Quad_node tm com b None cs2)
           })
      else do {
        cs2 \<leftarrow> for_children (\<lambda>child. quad_node_insert_b32 n child p) cs;
        Some (Quad_node tm com b pt cs2)
      })"

fun insert_points_b32 :: "nat \<Rightarrow> quad_node_t \<Rightarrow> point_t list \<Rightarrow> quad_node_t option" where
  "insert_points_b32 n node [] = Some node"
| "insert_points_b32 n node (p # ps) =
     (case quad_node_insert_b32 n node p of
        None \<Rightarrow> None
      | Some node' \<Rightarrow> insert_points_b32 n node' ps)"

fun quad_node_compute_mass_b32 :: "quad_node_t \<Rightarrow> quad_node_t" where
  "quad_node_compute_mass_b32 (Quad_node tm com b pt cs) =
     (if quad_node_is_leaf (Quad_node tm com b pt cs) then
        (case pt of
           Some p \<Rightarrow> Quad_node (mass p) (position p) b pt cs
         | None \<Rightarrow> Quad_node tm com b pt cs)
      else
        (let cs' = map quad_node_compute_mass_b32 cs;
             tm' = foldl (\<lambda>acc child. fadd acc (total_mass child)) 0 cs';
             com' = foldl (\<lambda>acc child.
                      vec_add_b32 acc (vec_mul_b32 (center_of_mass child) (total_mass child)))
                      (Vector2f 0 0) cs'
         in Quad_node tm' (if tm' > 0 then vec_div_b32 com' tm' else com') b pt cs'))"

text \<open>
  As in the first embedding, a zero divisor is a result of its own: the program then
  computes an infinity or a NaN, which are no binary32 numbers of this model.
\<close>

fun quad_node_compute_force_b32 :: "quad_node_t \<Rightarrow> point_t \<Rightarrow> error + point_t" where
  "quad_node_compute_force_b32 (Quad_node tm com b pt cs) p =
     (if tm = 0 \<or> position p = com then Inr p
      else
        (let direction = vec_sub_b32 com (position p);
             distance = fsqrt (fadd (fadd (fmul (vx direction) (vx direction))
                                          (fmul (vy direction) (vy direction)))
                                    (fmul SOFTENING SOFTENING))
         in if distance = 0 then Inl Division_by_zero
            else
              (let ratio = fdiv (width b) distance
               in if quad_node_is_leaf (Quad_node tm com b pt cs) \<or> ratio < THETA then
                    (if fadd (fmul distance distance) (fmul SOFTENING SOFTENING) = 0
                     then Inl Division_by_zero
                     else
                       (let force = fdiv (fmul (fmul GRAVITY_CONSTANT_b32 tm) (mass p))
                                      (fadd (fmul distance distance)
                                            (fmul SOFTENING SOFTENING))
                        in if mass p = 0 then Inl Division_by_zero
                           else
                             (let acceleration =
                                    vec_div_b32
                                      (vec_mul_b32 (vec_div_b32 direction distance) force)
                                      (mass p)
                              in Inr (p\<lparr>velocity :=
                                        vec_add_b32 (velocity p)
                                                (vec_mul_b32 acceleration TIME_STEP)\<rparr>))))
                  else
                    fold (\<lambda>child r. case r of
                                      Inl e \<Rightarrow> Inl e
                                    | Inr q \<Rightarrow> quad_node_compute_force_b32 child q)
                         cs (Inr p))))"

definition build_tree_b32 :: "nat \<Rightarrow> FloatRect \<Rightarrow> point_t list \<Rightarrow> quad_node_t option" where
  "build_tree_b32 n b ps =
     map_option quad_node_compute_mass_b32 (insert_points_b32 n (quad_node_init b) ps)"

text \<open>The number of nodes of a tree.\<close>

fun quad_node_count :: "quad_node_t \<Rightarrow> nat" where
  "quad_node_count (Quad_node tm com b pt cs) = Suc (sum_list (map quad_node_count cs))"

section \<open>Invariants of the trees built in binary32\<close>

text \<open>
  A binary32 number is a real number that rounding leaves as it is. The fields of a
  rectangle of the program are such numbers, and so are those of every node of a tree.
\<close>

definition is_binary32 :: "real \<Rightarrow> bool" where
  "is_binary32 x = (binary32 x = x)"

definition float_rect :: "FloatRect \<Rightarrow> bool" where
  "float_rect b = (is_binary32 (left b) \<and> is_binary32 (top' b)
                   \<and> is_binary32 (width b) \<and> is_binary32 (height b))"

fun float_bounds :: "quad_node_t \<Rightarrow> bool" where
  "float_bounds (Quad_node tm com b pt cs) = (float_rect b \<and> list_all float_bounds cs)"

text \<open>
  Insertion leaves \<open>total_mass\<close> as \<^verbatim>\<open>quad_node_init\<close> has set it: before
  \<^verbatim>\<open>quad_node_compute_mass\<close> runs, it is 0 in every node.
\<close>

fun unaggregated :: "quad_node_t \<Rightarrow> bool" where
  "unaggregated (Quad_node tm com b pt cs) = (tm = 0 \<and> list_all unaggregated cs)"

section \<open>Force evaluation that reaches the leaves, in binary32\<close>

text \<open>
  The distance of lines 155-157, and the velocity that the force branch (lines 160-167)
  adds to the target point \<open>p\<close> when the node is a leaf holding the point \<open>q\<close>: after
  \<^verbatim>\<open>quad_node_compute_mass\<close> the total mass and the center of mass of such a leaf are
  the mass and the position of \<open>q\<close>.
\<close>

definition distance_b32 :: "Vector2f \<Rightarrow> Vector2f \<Rightarrow> real" where
  "distance_b32 com pos =
     (let direction = vec_sub_b32 com pos
      in fsqrt (fadd (fadd (fmul (vx direction) (vx direction))
                           (fmul (vy direction) (vy direction)))
                     (fmul SOFTENING SOFTENING)))"

definition pair_velocity_b32 :: "point_t \<Rightarrow> point_t \<Rightarrow> Vector2f" where
  "pair_velocity_b32 p q =
     (let direction = vec_sub_b32 (position q) (position p);
          distance = distance_b32 (position q) (position p);
          force = fdiv (fmul (fmul GRAVITY_CONSTANT_b32 (mass q)) (mass p))
                       (fadd (fmul distance distance) (fmul SOFTENING SOFTENING));
          acceleration = vec_div_b32 (vec_mul_b32 (vec_div_b32 direction distance) force)
                                     (mass p)
      in vec_mul_b32 acceleration TIME_STEP)"

text \<open>What a leaf holding \<open>q\<close> does to the velocity \<open>v\<close> of the target point \<open>p\<close>.\<close>

definition leaf_contribution_b32 :: "point_t \<Rightarrow> Vector2f \<Rightarrow> point_t \<Rightarrow> Vector2f" where
  "leaf_contribution_b32 p v q =
     (if mass q = 0 \<or> position p = position q then v
      else vec_add_b32 v (pair_velocity_b32 p q))"

text \<open>
  The force evaluation for \<open>p\<close> reaches the leaves of a tree when every internal node
  that holds a point is opened: its total mass is not 0, its center of mass is not the
  position of \<open>p\<close>, and the opening-angle test fails.
\<close>

fun opened_b32 :: "quad_node_t \<Rightarrow> point_t \<Rightarrow> bool" where
  "opened_b32 (Quad_node tm com b pt cs) p =
     (quad_node_is_leaf (Quad_node tm com b pt cs)
      \<or> quad_node_points (Quad_node tm com b pt cs) = []
      \<or> (tm \<noteq> 0 \<and> position p \<noteq> com
          \<and> \<not> fdiv (width b) (distance_b32 com (position p)) < THETA
          \<and> list_all (\<lambda>child. opened_b32 child p) cs))"

section \<open>Vectors and distances\<close>

lemma vec_sel [simp]:
  "vx (vec_add a c) = vx a + vx c" "vy (vec_add a c) = vy a + vy c"
  "vx (vec_sub a c) = vx a - vx c" "vy (vec_sub a c) = vy a - vy c"
  "vx (vec_mul a s) = vx a * s" "vy (vec_mul a s) = vy a * s"
  "vx (vec_div a s) = vx a / s" "vy (vec_div a s) = vy a / s"
  by (simp_all add: vec_add_def vec_sub_def vec_mul_def vec_div_def)

lemma vec_eq_iff: "a = c \<longleftrightarrow> vx a = vx c \<and> vy a = vy c"
  by (cases a; cases c) simp

lemma vec_add_assoc: "vec_add (vec_add a c) e = vec_add a (vec_add c e)"
  by (simp add: vec_eq_iff)

lemma vec_add_zero [simp]: "vec_add a (Vector2f 0 0) = a" "vec_add (Vector2f 0 0) a = a"
  by (simp_all add: vec_eq_iff)

lemma distance_ge: "sqrt (a * a + c * c + SOFTENING * SOFTENING) \<ge> SOFTENING"
proof -
  have "SOFTENING = sqrt (SOFTENING * SOFTENING)" by (simp add: SOFTENING_def)
  also have "\<dots> \<le> sqrt (a * a + c * c + SOFTENING * SOFTENING)"
    by (rule real_sqrt_le_mono) simp
  finally show ?thesis .
qed

lemma distance_pos: "sqrt (a * a + c * c + SOFTENING * SOFTENING) > 0"
proof -
  have "(0::real) < SOFTENING" by (simp add: SOFTENING_def)
  then show ?thesis using distance_ge[of a c] by linarith
qed

section \<open>Lemmas on force evaluation\<close>

lemma fold_force_shift:
  assumes "\<And>c q. c \<in> set cs \<Longrightarrow> mass q = mass p \<Longrightarrow> position q = position p \<Longrightarrow>
             quad_node_compute_force c q = Inr (q\<lparr>velocity := vec_add (velocity q) (d c)\<rparr>)"
  shows "fold (\<lambda>child r. case r of Inl e \<Rightarrow> Inl e | Inr q \<Rightarrow> quad_node_compute_force child q) cs (Inr p)
       = Inr (p\<lparr>velocity := fold (\<lambda>c w. vec_add w (d c)) cs (velocity p)\<rparr>)"
  using assms
proof (induction cs arbitrary: p)
  case Nil
  then show ?case by simp
next
  case (Cons c cs)
  let ?q = "p\<lparr>velocity := vec_add (velocity p) (d c)\<rparr>"
  have 1: "quad_node_compute_force c p = Inr ?q"
    using Cons.prems[of c p] by simp
  have 2: "fold (\<lambda>child r. case r of Inl e \<Rightarrow> Inl e | Inr q \<Rightarrow> quad_node_compute_force child q) cs (Inr ?q)
       = Inr (?q\<lparr>velocity := fold (\<lambda>c w. vec_add w (d c)) cs (velocity ?q)\<rparr>)"
    by (rule Cons.IH) (use Cons.prems in simp)
  show ?case using 1 2 by simp
qed

lemma fold_shift_vec:
  "fold (\<lambda>c w. vec_add w (d c)) cs (vec_add v u) = vec_add v (fold (\<lambda>c w. vec_add w (d c)) cs u)"
  by (induction cs arbitrary: u) (simp_all add: vec_add_assoc)

lemma compute_force_shift:
  "\<exists>d. \<forall>p. mass p \<noteq> 0 \<longrightarrow> position p = pos \<longrightarrow>
         quad_node_compute_force node p = Inr (p\<lparr>velocity := vec_add (velocity p) d\<rparr>)"
proof (induction node)
  case (Quad_node tm com b pt cs)
  let ?dir = "vec_sub com pos"
  let ?dist = "sqrt (vx ?dir * vx ?dir + vy ?dir * vy ?dir + SOFTENING * SOFTENING)"
  have dpos: "?dist > 0" by (rule distance_pos)
  have den: "?dist * ?dist + SOFTENING * SOFTENING > 0"
    using dpos by (simp add: SOFTENING_def add_pos_pos)
  have dn: "?dist \<noteq> 0" "?dist * ?dist + SOFTENING * SOFTENING \<noteq> 0"
    using dpos den by simp_all
  show ?case
  proof (cases "tm = 0 \<or> pos = com")
    case True
    have "\<forall>p. mass p \<noteq> 0 \<longrightarrow> position p = pos \<longrightarrow>
            quad_node_compute_force (Quad_node tm com b pt cs) p
            = Inr (p\<lparr>velocity := vec_add (velocity p) (Vector2f 0 0)\<rparr>)"
    proof (intro allI impI)
      fix p :: point_t
      assume m: "mass p \<noteq> 0" and pp: "position p = pos"
      have "quad_node_compute_force (Quad_node tm com b pt cs) p = Inr p"
        using True pp by (subst quad_node_compute_force.simps) simp
      moreover have "p\<lparr>velocity := vec_add (velocity p) (Vector2f 0 0)\<rparr> = p"
        by simp
      ultimately show "quad_node_compute_force (Quad_node tm com b pt cs) p
            = Inr (p\<lparr>velocity := vec_add (velocity p) (Vector2f 0 0)\<rparr>)" by simp
    qed
    then show ?thesis by blast
  next
    case False
    show ?thesis
    proof (cases "quad_node_is_leaf (Quad_node tm com b pt cs) \<or> width b / ?dist < THETA")
      case True
      let ?d = "vec_mul (vec_mul (vec_div ?dir ?dist)
                  (GRAVITY_CONSTANT * tm / (?dist * ?dist + SOFTENING * SOFTENING))) TIME_STEP"
      have "\<forall>p. mass p \<noteq> 0 \<longrightarrow> position p = pos \<longrightarrow>
            quad_node_compute_force (Quad_node tm com b pt cs) p
            = Inr (p\<lparr>velocity := vec_add (velocity p) ?d\<rparr>)"
      proof (intro allI impI)
        fix p :: point_t
        assume m: "mass p \<noteq> 0" and pp: "position p = pos"
        let ?a = "vec_div (vec_mul (vec_div ?dir ?dist)
                    (GRAVITY_CONSTANT * tm * mass p / (?dist * ?dist + SOFTENING * SOFTENING)))
                    (mass p)"
        have 1: "quad_node_compute_force (Quad_node tm com b pt cs) p
               = Inr (p\<lparr>velocity := vec_add (velocity p) (vec_mul ?a TIME_STEP)\<rparr>)"
          by (subst quad_node_compute_force.simps)
             (simp only: Let_def pp dn m False True if_False if_True)
        have 2: "vec_mul ?a TIME_STEP = ?d"
          using m by (simp add: vec_eq_iff)
        show "quad_node_compute_force (Quad_node tm com b pt cs) p
            = Inr (p\<lparr>velocity := vec_add (velocity p) ?d\<rparr>)"
          unfolding 1 2 ..
      qed
      then show ?thesis by blast
    next
      case nl: False
      have "\<forall>c\<in>set cs. \<exists>d. \<forall>p. mass p \<noteq> 0 \<longrightarrow> position p = pos \<longrightarrow>
              quad_node_compute_force c p = Inr (p\<lparr>velocity := vec_add (velocity p) d\<rparr>)"
        using Quad_node.IH by blast
      then obtain d where d: "\<And>c p. c \<in> set cs \<Longrightarrow> mass p \<noteq> 0 \<Longrightarrow> position p = pos \<Longrightarrow>
              quad_node_compute_force c p = Inr (p\<lparr>velocity := vec_add (velocity p) (d c)\<rparr>)"
        by metis
      have "\<forall>p. mass p \<noteq> 0 \<longrightarrow> position p = pos \<longrightarrow>
            quad_node_compute_force (Quad_node tm com b pt cs) p
            = Inr (p\<lparr>velocity := vec_add (velocity p) (fold (\<lambda>c w. vec_add w (d c)) cs (Vector2f 0 0))\<rparr>)"
      proof (intro allI impI)
        fix p :: point_t
        assume m: "mass p \<noteq> 0" and pp: "position p = pos"
        have "quad_node_compute_force (Quad_node tm com b pt cs) p
            = fold (\<lambda>child r. case r of Inl e \<Rightarrow> Inl e | Inr q \<Rightarrow> quad_node_compute_force child q) cs (Inr p)"
          by (subst quad_node_compute_force.simps)
             (simp only: Let_def pp dn m False nl if_False if_True)
        also have "\<dots> = Inr (p\<lparr>velocity := fold (\<lambda>c w. vec_add w (d c)) cs (velocity p)\<rparr>)"
          by (rule fold_force_shift) (use d m pp in simp)
        also have "fold (\<lambda>c w. vec_add w (d c)) cs (velocity p)
                 = vec_add (velocity p) (fold (\<lambda>c w. vec_add w (d c)) cs (Vector2f 0 0))"
          using fold_shift_vec[of d cs "velocity p" "Vector2f 0 0"] by simp
        finally show "quad_node_compute_force (Quad_node tm com b pt cs) p
            = Inr (p\<lparr>velocity := vec_add (velocity p) (fold (\<lambda>c w. vec_add w (d c)) cs (Vector2f 0 0))\<rparr>)" .
      qed
      then show ?thesis by blast
    qed
  qed
qed

lemma compute_force_velocity_change:
  assumes "mass p \<noteq> 0"
  shows "quad_node_compute_force node p = Inr (p\<lparr>velocity := vec_add (velocity p) (velocity_change node p)\<rparr>)"
proof -
  from compute_force_shift[of "position p" node]
  obtain d where d: "\<forall>p'. mass p' \<noteq> 0 \<longrightarrow> position p' = position p \<longrightarrow>
         quad_node_compute_force node p' = Inr (p'\<lparr>velocity := vec_add (velocity p') d\<rparr>)" ..
  have "quad_node_compute_force node p = Inr (p\<lparr>velocity := vec_add (velocity p) d\<rparr>)"
    using d assms by simp
  then show ?thesis by (simp add: velocity_change_def vec_eq_iff)
qed

lemma velocity_change_cong:
  assumes "mass p \<noteq> 0" "mass q \<noteq> 0" "position p = position q"
  shows "velocity_change node p = velocity_change node q"
proof -
  from compute_force_shift[of "position p" node]
  obtain d where d: "\<forall>p'. mass p' \<noteq> 0 \<longrightarrow> position p' = position p \<longrightarrow>
         quad_node_compute_force node p' = Inr (p'\<lparr>velocity := vec_add (velocity p') d\<rparr>)" ..
  have "quad_node_compute_force node p = Inr (p\<lparr>velocity := vec_add (velocity p) d\<rparr>)"
       "quad_node_compute_force node q = Inr (q\<lparr>velocity := vec_add (velocity q) d\<rparr>)"
    using d assms by simp_all
  then show ?thesis by (simp add: velocity_change_def vec_eq_iff)
qed

lemma compute_force_skip:
  "total_mass node = 0 \<or> center_of_mass node = position p \<Longrightarrow> quad_node_compute_force node p = Inr p"
  by (cases node) auto

lemma compute_force_total:
  "mass p \<noteq> 0 \<Longrightarrow> \<exists>q. quad_node_compute_force node p = Inr q"
  using compute_force_velocity_change[of p node] by blast

lemma fold_force_velocity_change:
  assumes "mass p \<noteq> 0"
  shows "fold (\<lambda>child r. case r of Inl e \<Rightarrow> Inl e | Inr q \<Rightarrow> quad_node_compute_force child q) cs (Inr p)
       = Inr (p\<lparr>velocity := fold (\<lambda>child v. vec_add v (velocity_change child p)) cs (velocity p)\<rparr>)"
proof (rule fold_force_shift)
  fix c and q :: point_t
  assume q: "mass q = mass p" "position q = position p"
  have "velocity_change c q = velocity_change c p"
    by (rule velocity_change_cong) (use q assms in simp_all)
  then show "quad_node_compute_force c q = Inr (q\<lparr>velocity := vec_add (velocity q) (velocity_change c p)\<rparr>)"
    using compute_force_velocity_change[of q c] q assms by simp
qed

section \<open>Lemmas on tree construction\<close>

lemma for_children_Some_iff:
  "for_children f cs = Some cs' \<longleftrightarrow> list_all2 (\<lambda>c c'. f c = Some c') cs cs'"
proof (induction cs arbitrary: cs')
  case Nil
  then show ?case by auto
next
  case (Cons c cs)
  show ?case
  proof (cases "f c")
    case None
    then show ?thesis by (cases cs') auto
  next
    case fc: (Some d)
    show ?thesis
    proof (cases "for_children f cs")
      case None
      then have "\<not> list_all2 (\<lambda>c c'. f c = Some c') cs ds" for ds
        using Cons.IH[of ds] by simp
      then show ?thesis using fc None by (cases cs') auto
    next
      case (Some ds)
      then have "list_all2 (\<lambda>c c'. f c = Some c') cs es \<longleftrightarrow> es = ds" for es
        using Cons.IH[of es] by auto
      then show ?thesis using fc Some by (cases cs') auto
    qed
  qed
qed

lemma for_children_None:
  "c \<in> set cs \<Longrightarrow> f c = None \<Longrightarrow> for_children f cs = None"
  by (induction cs) (auto split: option.splits)

lemma for_children_total:
  "(\<And>c. c \<in> set cs \<Longrightarrow> \<exists>c'. f c = Some c') \<Longrightarrow> \<exists>cs'. for_children f cs = Some cs'"
proof (induction cs)
  case Nil
  then show ?case by simp
next
  case (Cons c cs)
  obtain c' where "f c = Some c'" using Cons.prems[of c] by auto
  moreover obtain cs' where "for_children f cs = Some cs'" using Cons by auto
  ultimately show ?case by simp
qed

lemma length_quadrants [simp]: "length (quadrants b) = 4"
  by (simp add: quadrants_def Let_def)

lemma half_cover:
  "min l (l + w) \<le> x \<and> x < max l (l + w) \<longleftrightarrow>
     (min l (l + w / 2) \<le> x \<and> x < max l (l + w / 2))
     \<or> (min (l + w / 2) (l + w / 2 + w / 2) \<le> x \<and> x < max (l + w / 2) (l + w / 2 + w / 2))"
  for l w x :: real
  by (auto simp: min_def max_def split: if_splits)

lemma half_disjoint:
  "\<not> ((min l (l + w / 2) \<le> x \<and> x < max l (l + w / 2))
     \<and> (min (l + w / 2) (l + w / 2 + w / 2) \<le> x \<and> x < max (l + w / 2) (l + w / 2 + w / 2)))"
  for l w x :: real
  by (auto simp: min_def max_def split: if_splits)

lemma quadrants_cases:
  obtains q0 q1 q2 q3 X1 X2 Y1 Y2 where
    "quadrants b = [q0, q1, q2, q3]"
    "contains q0 v \<longleftrightarrow> X1 \<and> Y1"
    "contains q1 v \<longleftrightarrow> X2 \<and> Y1"
    "contains q2 v \<longleftrightarrow> X1 \<and> Y2"
    "contains q3 v \<longleftrightarrow> X2 \<and> Y2"
    "contains b v \<longleftrightarrow> (X1 \<or> X2) \<and> (Y1 \<or> Y2)"
    "\<not> (X1 \<and> X2)" "\<not> (Y1 \<and> Y2)"
proof -
  define X1 where "X1 \<longleftrightarrow> min (left b) (left b + width b / 2) \<le> vx v
                        \<and> vx v < max (left b) (left b + width b / 2)"
  define X2 where "X2 \<longleftrightarrow> min (left b + width b / 2) (left b + width b / 2 + width b / 2) \<le> vx v
                        \<and> vx v < max (left b + width b / 2) (left b + width b / 2 + width b / 2)"
  define Y1 where "Y1 \<longleftrightarrow> min (top' b) (top' b + height b / 2) \<le> vy v
                        \<and> vy v < max (top' b) (top' b + height b / 2)"
  define Y2 where "Y2 \<longleftrightarrow> min (top' b + height b / 2) (top' b + height b / 2 + height b / 2) \<le> vy v
                        \<and> vy v < max (top' b + height b / 2) (top' b + height b / 2 + height b / 2)"
  let ?q0 = "\<lparr>left = left b, top' = top' b, width = width b / 2, height = height b / 2\<rparr>"
  let ?q1 = "\<lparr>left = left b + width b / 2, top' = top' b, width = width b / 2,
              height = height b / 2\<rparr>"
  let ?q2 = "\<lparr>left = left b, top' = top' b + height b / 2, width = width b / 2,
              height = height b / 2\<rparr>"
  let ?q3 = "\<lparr>left = left b + width b / 2, top' = top' b + height b / 2, width = width b / 2,
              height = height b / 2\<rparr>"
  have l: "quadrants b = [?q0, ?q1, ?q2, ?q3]"
    by (simp add: quadrants_def Let_def)
  have q: "contains ?q0 v \<longleftrightarrow> X1 \<and> Y1"
    "contains ?q1 v \<longleftrightarrow> X2 \<and> Y1"
    "contains ?q2 v \<longleftrightarrow> X1 \<and> Y2"
    "contains ?q3 v \<longleftrightarrow> X2 \<and> Y2"
    unfolding contains_def Let_def X1_def X2_def Y1_def Y2_def by simp_all
  have b: "contains b v \<longleftrightarrow> (X1 \<or> X2) \<and> (Y1 \<or> Y2)"
    unfolding contains_def Let_def X1_def X2_def Y1_def Y2_def
    using half_cover[of "left b" "width b" "vx v"] half_cover[of "top' b" "height b" "vy v"]
    by blast
  have d: "\<not> (X1 \<and> X2)" "\<not> (Y1 \<and> Y2)"
    unfolding X1_def X2_def Y1_def Y2_def
    using half_disjoint[of "left b" "width b" "vx v"] half_disjoint[of "top' b" "height b" "vy v"]
    by blast+
  show thesis using that[OF l q b d] .
qed

lemma sum_contains_quadrants:
  "(\<Sum>q\<leftarrow>quadrants b. of_bool (contains q v) :: real) = of_bool (contains b v)"
proof -
  obtain q0 q1 q2 q3 X1 X2 Y1 Y2 where *:
    "quadrants b = [q0, q1, q2, q3]"
    "contains q0 v \<longleftrightarrow> X1 \<and> Y1" "contains q1 v \<longleftrightarrow> X2 \<and> Y1"
    "contains q2 v \<longleftrightarrow> X1 \<and> Y2" "contains q3 v \<longleftrightarrow> X2 \<and> Y2"
    "contains b v \<longleftrightarrow> (X1 \<or> X2) \<and> (Y1 \<or> Y2)"
    "\<not> (X1 \<and> X2)" "\<not> (Y1 \<and> Y2)"
    by (rule quadrants_cases)
  have "(\<Sum>q\<leftarrow>quadrants b. of_bool (contains q v) :: real)
       = of_bool (X1 \<and> Y1) + of_bool (X2 \<and> Y1) + of_bool (X1 \<and> Y2) + of_bool (X2 \<and> Y2)"
    unfolding *(1) by (simp add: *(2-5))
  also have "\<dots> = of_bool ((X1 \<or> X2) \<and> (Y1 \<or> Y2))"
    using *(7,8) by (cases X1; cases X2; cases Y1; cases Y2) simp_all
  finally show ?thesis by (simp only: *(6))
qed

lemma quadrant_subset:
  "q \<in> set (quadrants b) \<Longrightarrow> contains q v \<Longrightarrow> contains b v"
proof -
  assume a: "q \<in> set (quadrants b)" "contains q v"
  obtain q0 q1 q2 q3 X1 X2 Y1 Y2 where *:
    "quadrants b = [q0, q1, q2, q3]"
    "contains q0 v \<longleftrightarrow> X1 \<and> Y1" "contains q1 v \<longleftrightarrow> X2 \<and> Y1"
    "contains q2 v \<longleftrightarrow> X1 \<and> Y2" "contains q3 v \<longleftrightarrow> X2 \<and> Y2"
    "contains b v \<longleftrightarrow> (X1 \<or> X2) \<and> (Y1 \<or> Y2)"
    "\<not> (X1 \<and> X2)" "\<not> (Y1 \<and> Y2)"
    by (rule quadrants_cases)
  have "q = q0 \<or> q = q1 \<or> q = q2 \<or> q = q3"
    using a(1) unfolding *(1) by simp
  then show ?thesis using a(2) *(2-6) by blast
qed

lemma quadrant_exists:
  "contains b v \<Longrightarrow> \<exists>q\<in>set (quadrants b). contains q v"
proof -
  assume a: "contains b v"
  obtain q0 q1 q2 q3 X1 X2 Y1 Y2 where *:
    "quadrants b = [q0, q1, q2, q3]"
    "contains q0 v \<longleftrightarrow> X1 \<and> Y1" "contains q1 v \<longleftrightarrow> X2 \<and> Y1"
    "contains q2 v \<longleftrightarrow> X1 \<and> Y2" "contains q3 v \<longleftrightarrow> X2 \<and> Y2"
    "contains b v \<longleftrightarrow> (X1 \<or> X2) \<and> (Y1 \<or> Y2)"
    "\<not> (X1 \<and> X2)" "\<not> (Y1 \<and> Y2)"
    by (rule quadrants_cases)
  have "contains q0 v \<or> contains q1 v \<or> contains q2 v \<or> contains q3 v"
    using a *(2-6) by blast
  then show ?thesis unfolding *(1) by auto
qed

lemma insert_outside:
  "\<not> contains (boundary node) (position p) \<Longrightarrow> quad_node_insert (Suc n) node p = Some node"
  by (cases node) simp

lemma insert_boundary:
  "quad_node_insert n node p = Some node' \<Longrightarrow> boundary node' = boundary node"
proof (cases n)
  case 0
  then show "quad_node_insert n node p = Some node' \<Longrightarrow> boundary node' = boundary node" by simp
next
  case (Suc m)
  assume "quad_node_insert n node p = Some node'"
  then show "boundary node' = boundary node"
    unfolding Suc by (cases node) (auto split: if_splits option.splits Option.bind_splits)
qed

lemma insert_init:
  "quad_node_insert (Suc n) (quad_node_init b) p
   = Some (if contains b (position p) then Quad_node 0 (Vector2f 0 0) b (Some p) []
           else quad_node_init b)"
  by (simp add: quad_node_init_def quad_node_is_leaf_def)

lemma insert_fuel_mono:
  "quad_node_insert n node p = Some node' \<Longrightarrow> n \<le> m \<Longrightarrow> quad_node_insert m node p = Some node'"
proof (induction n arbitrary: node node' m p)
  case 0
  then show ?case by simp
next
  case (Suc n)
  obtain k where m: "m = Suc k" and nk: "n \<le> k"
    using Suc.prems(2) by (cases m) auto
  have step: "for_children (\<lambda>child. quad_node_insert n child q) cs = Some cs'
          \<Longrightarrow> for_children (\<lambda>child. quad_node_insert k child q) cs = Some cs'" for q cs cs'
    unfolding for_children_Some_iff
    by (erule list_all2_mono) (use Suc.IH nk in blast)
  obtain tm com b pt cs where node: "node = Quad_node tm com b pt cs" by (cases node)
  show ?case
    using Suc.prems(1) unfolding m node
    by (auto split: if_splits option.splits Option.bind_splits dest!: step)
qed

lemma well_formed_init: "well_formed (quad_node_init b)"
  by (simp add: quad_node_init_def quad_node_is_leaf_def)

lemma points_init: "quad_node_points (quad_node_init b) = []"
  by (simp add: quad_node_init_def quad_node_is_leaf_def)

lemma boundary_init: "boundary (quad_node_init b) = b"
  by (simp add: quad_node_init_def)

lemma sum_mass_concat:
  "(\<Sum>p\<leftarrow>concat (map f cs). mass p) = (\<Sum>c\<leftarrow>cs. \<Sum>p\<leftarrow>f c. mass p)"
  by (induction cs) simp_all

lemma children_insert_step:
  assumes "list_all2 (\<lambda>c c'. quad_node_insert n c p = Some c') cs cs'"
    and "list_all well_formed cs"
    and "\<And>c c'. well_formed c \<Longrightarrow> quad_node_insert n c p = Some c' \<Longrightarrow>
           well_formed c' \<and>
           (\<Sum>x\<leftarrow>quad_node_points c'. mass x)
           = (\<Sum>x\<leftarrow>quad_node_points c. mass x)
             + of_bool (contains (boundary c) (position p)) * mass p"
  shows "list_all well_formed cs' \<and> map boundary cs' = map boundary cs \<and>
         (\<Sum>c\<leftarrow>cs'. \<Sum>x\<leftarrow>quad_node_points c. mass x)
         = (\<Sum>c\<leftarrow>cs. \<Sum>x\<leftarrow>quad_node_points c. mass x)
           + (\<Sum>b\<leftarrow>map boundary cs. of_bool (contains b (position p))) * mass p"
  using assms(1,2)
proof (induction rule: list_all2_induct)
  case Nil
  then show ?case by simp
next
  case (Cons c cs c' cs')
  have 1: "well_formed c' \<and>
           (\<Sum>x\<leftarrow>quad_node_points c'. mass x)
           = (\<Sum>x\<leftarrow>quad_node_points c. mass x)
             + of_bool (contains (boundary c) (position p)) * mass p"
    using assms(3)[of c c'] Cons by simp
  have 2: "boundary c' = boundary c" using Cons.hyps(1) by (rule insert_boundary)
  have 3: "list_all well_formed cs' \<and> map boundary cs' = map boundary cs \<and>
         (\<Sum>c\<leftarrow>cs'. \<Sum>x\<leftarrow>quad_node_points c. mass x)
         = (\<Sum>c\<leftarrow>cs. \<Sum>x\<leftarrow>quad_node_points c. mass x)
           + (\<Sum>b\<leftarrow>map boundary cs. of_bool (contains b (position p))) * mass p"
    using Cons by simp
  show ?case using 1 2 3 by (simp add: algebra_simps)
qed

lemma insert_well_formed:
  "well_formed node \<Longrightarrow> quad_node_insert n node p = Some node' \<Longrightarrow>
     well_formed node' \<and>
     (\<Sum>x\<leftarrow>quad_node_points node'. mass x)
     = (\<Sum>x\<leftarrow>quad_node_points node. mass x)
       + of_bool (contains (boundary node) (position p)) * mass p"
proof (induction n arbitrary: node node' p)
  case 0
  then show ?case by simp
next
  case (Suc n)
  obtain tm com b pt cs where node: "node = Quad_node tm com b pt cs" by (cases node)
  have step: "list_all well_formed ds' \<and> map boundary ds' = map boundary ds \<and>
         (\<Sum>c\<leftarrow>ds'. \<Sum>x\<leftarrow>quad_node_points c. mass x)
         = (\<Sum>c\<leftarrow>ds. \<Sum>x\<leftarrow>quad_node_points c. mass x)
           + (\<Sum>b\<leftarrow>map boundary ds. of_bool (contains b (position r))) * mass r"
    if "for_children (\<lambda>child. quad_node_insert n child r) ds = Some ds'"
      and "list_all well_formed ds" for r ds ds'
  proof -
    have l2: "list_all2 (\<lambda>c c'. quad_node_insert n c r = Some c') ds ds'"
      using that(1) by (simp add: for_children_Some_iff)
    show ?thesis
      by (rule children_insert_step[OF l2 that(2)], rule Suc.IH)
  qed
  show ?case
  proof (cases "contains b (position p)")
    case False
    then have "quad_node_insert (Suc n) node p = Some node" using node by simp
    then have "node' = node" using Suc.prems(2) by simp
    moreover have "\<not> contains (boundary node) (position p)" using False node by simp
    ultimately show ?thesis using Suc.prems(1) by simp
  next
    case inb: True
    show ?thesis
    proof (cases "cs = []")
      case leaf: True
      show ?thesis
      proof (cases pt)
        case None
        then show ?thesis using Suc.prems node inb leaf by (auto simp: quad_node_is_leaf_def)
      next
        case (Some q)
        have qb: "contains b (position q)"
          using Suc.prems(1) node leaf Some by (simp add: quad_node_is_leaf_def)
        obtain cs1 cs2 where
          cs1: "for_children (\<lambda>child. quad_node_insert n child q) (map quad_node_init (quadrants b)) = Some cs1"
          and cs2: "for_children (\<lambda>child. quad_node_insert n child p) cs1 = Some cs2"
          and node': "node' = Quad_node tm com b None cs2"
          using Suc.prems(2) node inb leaf Some
          by (auto simp: quad_node_is_leaf_def quad_node_subdivide_def split: Option.bind_splits)
        have wf0: "list_all well_formed (map quad_node_init (quadrants b))"
          by (simp add: list_all_iff well_formed_init)
        note st1 = step[OF cs1 wf0]
        have w1: "list_all well_formed cs1" using st1 by (rule conjunct1)
        have b1: "map boundary cs1 = quadrants b"
          using st1 by (simp add: o_def boundary_init)
        have m1: "(\<Sum>c\<leftarrow>cs1. \<Sum>x\<leftarrow>quad_node_points c. mass x) = mass q"
          using st1 qb by (simp add: o_def boundary_init points_init sum_contains_quadrants)
        note st2 = step[OF cs2 w1]
        have w2: "list_all well_formed cs2" using st2 by (rule conjunct1)
        have b2: "map boundary cs2 = quadrants b"
          using st2 b1 by simp
        have "(\<Sum>c\<leftarrow>cs2. \<Sum>x\<leftarrow>quad_node_points c. mass x)
              = (\<Sum>c\<leftarrow>cs1. \<Sum>x\<leftarrow>quad_node_points c. mass x)
                + (\<Sum>b\<leftarrow>map boundary cs1. of_bool (contains b (position p))) * mass p"
          using st2 by simp
        then have m2: "(\<Sum>c\<leftarrow>cs2. \<Sum>x\<leftarrow>quad_node_points c. mass x) = mass q + mass p"
          unfolding b1 m1 sum_contains_quadrants using inb by simp
        have "length cs2 = 4"
          using arg_cong[OF b2, of length] by simp
        then have ne: "cs2 \<noteq> []" by auto
        note s2 = w2 b2 m2
        show ?thesis
          using s2 ne inb unfolding node node'
          by (simp add: quad_node_is_leaf_def leaf Some sum_mass_concat)
      qed
    next
      case internal: False
      obtain cs2 where
          cs2: "for_children (\<lambda>child. quad_node_insert n child p) cs = Some cs2"
          and node': "node' = Quad_node tm com b pt cs2"
        using Suc.prems(2) node inb internal
        by (auto simp: quad_node_is_leaf_def split: Option.bind_splits)
      have wf: "map boundary cs = quadrants b" "list_all well_formed cs"
        using Suc.prems(1) node internal by (simp_all add: quad_node_is_leaf_def)
      note st2 = step[OF cs2 wf(2)]
      have w2: "list_all well_formed cs2" using st2 by (rule conjunct1)
      have b2: "map boundary cs2 = quadrants b"
        using st2 wf(1) by simp
      have "(\<Sum>c\<leftarrow>cs2. \<Sum>x\<leftarrow>quad_node_points c. mass x)
              = (\<Sum>c\<leftarrow>cs. \<Sum>x\<leftarrow>quad_node_points c. mass x)
                + (\<Sum>b\<leftarrow>map boundary cs. of_bool (contains b (position p))) * mass p"
        using st2 by simp
      then have m2: "(\<Sum>c\<leftarrow>cs2. \<Sum>x\<leftarrow>quad_node_points c. mass x)
            = (\<Sum>c\<leftarrow>cs. \<Sum>x\<leftarrow>quad_node_points c. mass x) + mass p"
        unfolding wf(1) sum_contains_quadrants using inb by simp
      have "length cs2 = 4"
        using arg_cong[OF b2, of length] by simp
      then have ne: "cs2 \<noteq> []" by auto
      note s2 = w2 b2 m2
      show ?thesis
        using s2 ne inb internal unfolding node node'
        by (simp add: quad_node_is_leaf_def sum_mass_concat)
    qed
  qed
qed

lemma foldl_add_sum:
  "foldl (\<lambda>acc child. acc + f child) a cs = a + (\<Sum>c\<leftarrow>cs. (f c :: real))"
  by (induction cs arbitrary: a) simp_all


lemma insert_points_well_formed:
  "well_formed node \<Longrightarrow> insert_points n node ps = Some node' \<Longrightarrow>
     well_formed node' \<and> boundary node' = boundary node \<and>
     (\<Sum>x\<leftarrow>quad_node_points node'. mass x)
     = (\<Sum>x\<leftarrow>quad_node_points node. mass x)
       + (\<Sum>p\<leftarrow>filter (\<lambda>p. contains (boundary node) (position p)) ps. mass p)"
proof (induction ps arbitrary: node)
  case Nil
  then show ?case by simp
next
  case (Cons p ps)
  obtain node1 where 1: "quad_node_insert n node p = Some node1"
    and 2: "insert_points n node1 ps = Some node'"
    using Cons.prems(2) by (auto split: option.splits)
  note a = insert_well_formed[OF Cons.prems(1) 1] insert_boundary[OF 1]
  note b = Cons.IH[OF a(1)[THEN conjunct1] 2]
  show ?case using a b by simp
qed

lemma built_well_formed:
  "insert_points n (quad_node_init b) ps = Some node \<Longrightarrow> well_formed node"
  using insert_points_well_formed[OF well_formed_init] by blast

lemma insert_points_fuel_mono:
  "insert_points n node ps = Some node' \<Longrightarrow> n \<le> m \<Longrightarrow> insert_points m node ps = Some node'"
proof (induction ps arbitrary: node)
  case Nil
  then show ?case by simp
next
  case (Cons p ps)
  obtain node1 where 1: "quad_node_insert n node p = Some node1"
    and 2: "insert_points n node1 ps = Some node'"
    using Cons.prems(1) by (auto split: option.splits)
  show ?case using insert_fuel_mono[OF 1 Cons.prems(2)] Cons.IH[OF 2 Cons.prems(2)] by simp
qed

lemma insert_points_subset:
  "quad_node_insert n node p = Some node' \<Longrightarrow>
     set (quad_node_points node') \<subseteq> insert p (set (quad_node_points node))"
proof (induction n arbitrary: node node' p)
  case 0
  then show ?case by simp
next
  case (Suc n)
  obtain tm com b pt cs where node: "node = Quad_node tm com b pt cs" by (cases node)
  have step: "(\<Union>c\<in>set ds'. set (quad_node_points c))
              \<subseteq> insert r (\<Union>c\<in>set ds. set (quad_node_points c))"
    if "for_children (\<lambda>child. quad_node_insert n child r) ds = Some ds'" for r ds ds'
  proof -
    have l2: "list_all2 (\<lambda>c c'. quad_node_insert n c r = Some c') ds ds'"
      using that(1) by (simp add: for_children_Some_iff)
    show ?thesis
    proof
      fix x assume "x \<in> (\<Union>c\<in>set ds'. set (quad_node_points c))"
      then obtain c' where c': "c' \<in> set ds'" "x \<in> set (quad_node_points c')" by auto
      then obtain i where i: "i < length ds'" "ds' ! i = c'" by (auto simp: in_set_conv_nth)
      have len: "length ds = length ds'" using l2 by (rule list_all2_lengthD)
      have "quad_node_insert n (ds ! i) r = Some c'"
        using list_all2_nthD2[OF l2 i(1)] i(2) by simp
      from Suc.IH[OF this] c'(2) have "x = r \<or> x \<in> set (quad_node_points (ds ! i))" by auto
      moreover have "ds ! i \<in> set ds" using i(1) len by simp
      ultimately show "x \<in> insert r (\<Union>c\<in>set ds. set (quad_node_points c))" by auto
    qed
  qed
  show ?case
  proof (cases "contains b (position p)")
    case False
    then have "quad_node_insert (Suc n) node p = Some node" using node by simp
    then have "node' = node" using Suc.prems by simp
    then show ?thesis by auto
  next
    case inb: True
    show ?thesis
    proof (cases "cs = []")
      case leaf: True
      show ?thesis
      proof (cases pt)
        case None
        then show ?thesis using Suc.prems node inb leaf by (auto simp: quad_node_is_leaf_def)
      next
        case (Some q)
        obtain cs1 cs2 where
          cs1: "for_children (\<lambda>child. quad_node_insert n child q) (map quad_node_init (quadrants b)) = Some cs1"
          and cs2: "for_children (\<lambda>child. quad_node_insert n child p) cs1 = Some cs2"
          and node': "node' = Quad_node tm com b None cs2"
          using Suc.prems node inb leaf Some
          by (auto simp: quad_node_is_leaf_def quad_node_subdivide_def split: Option.bind_splits)
        have "(\<Union>c\<in>set cs1. set (quad_node_points c)) \<subseteq> {q}"
          using step[OF cs1] by (simp add: points_init)
        then have "(\<Union>c\<in>set cs2. set (quad_node_points c)) \<subseteq> {p, q}"
          using step[OF cs2] by blast
        moreover have "set (quad_node_points node') \<subseteq> (\<Union>c\<in>set cs2. set (quad_node_points c))"
          unfolding node' by (auto simp: quad_node_is_leaf_def)
        ultimately show ?thesis unfolding node
          by (auto simp: quad_node_is_leaf_def leaf Some)
      qed
    next
      case internal: False
      obtain cs2 where
          cs2: "for_children (\<lambda>child. quad_node_insert n child p) cs = Some cs2"
          and node': "node' = Quad_node tm com b pt cs2"
        using Suc.prems node inb internal
        by (auto simp: quad_node_is_leaf_def split: Option.bind_splits)
      have "length cs = length cs2"
        using cs2 unfolding for_children_Some_iff by (rule list_all2_lengthD)
      then have "cs2 \<noteq> []" using internal by auto
      then have "set (quad_node_points node') \<subseteq> (\<Union>c\<in>set cs2. set (quad_node_points c))"
        unfolding node' by (auto simp: quad_node_is_leaf_def)
      then show ?thesis using step[OF cs2] internal unfolding node
        by (auto simp: quad_node_is_leaf_def)
    qed
  qed
qed

lemma contains_both:
  "contains b u \<Longrightarrow> contains b v \<Longrightarrow>
     \<bar>vx u - vx v\<bar> < \<bar>width b\<bar> \<and> \<bar>vy u - vy v\<bar> < \<bar>height b\<bar>"
  by (auto simp: contains_def min_def max_def split: if_splits)

lemma quadrants_abs_size:
  "q \<in> set (quadrants b) \<Longrightarrow>
     \<bar>width q\<bar> = \<bar>width b\<bar> / 2 \<and> \<bar>height q\<bar> = \<bar>height b\<bar> / 2"
  by (auto simp: quadrants_def Let_def)

lemma for_children_map:
  "(\<And>c. c \<in> set cs \<Longrightarrow> f c = Some (g c)) \<Longrightarrow> for_children f cs = Some (map g cs)"
  by (induction cs) simp_all

lemma leaf_insert_step:
  assumes "\<And>b'. b' \<in> set (quadrants b) \<Longrightarrow> contains b' (position p) \<Longrightarrow>
             contains b' (position q) \<Longrightarrow>
             \<exists>t. quad_node_insert (Suc n) (Quad_node 0 (Vector2f 0 0) b' (Some q) []) p = Some t"
  shows "\<exists>t. quad_node_insert (Suc (Suc n)) (Quad_node tm com b (Some q) []) p = Some t"
proof (cases "contains b (position p)")
  case False
  then show ?thesis by simp
next
  case True
  let ?g = "\<lambda>c. if contains (boundary c) (position q)
                 then Quad_node 0 (Vector2f 0 0) (boundary c) (Some q) [] else c"
  let ?cs0 = "map quad_node_init (quadrants b)"
  have cs1: "for_children (\<lambda>child. quad_node_insert (Suc n) child q) ?cs0 = Some (map ?g ?cs0)"
    by (rule for_children_map) (auto simp: insert_init boundary_init)
  have "\<exists>cs2. for_children (\<lambda>child. quad_node_insert (Suc n) child p) (map ?g ?cs0) = Some cs2"
  proof (rule for_children_total)
    fix c assume "c \<in> set (map ?g ?cs0)"
    then obtain b' where b': "b' \<in> set (quadrants b)"
      and c: "c = (if contains b' (position q)
                   then Quad_node 0 (Vector2f 0 0) b' (Some q) [] else quad_node_init b')"
      by (auto simp: boundary_init)
    show "\<exists>c'. quad_node_insert (Suc n) c p = Some c'"
    proof (cases "contains b' (position q)")
      case False
      then show ?thesis using c by (simp add: insert_init)
    next
      case q: True
      show ?thesis
      proof (cases "contains b' (position p)")
        case False
        then show ?thesis using c q by simp
      next
        case True
        then show ?thesis using assms[OF b' True q] c q by simp
      qed
    qed
  qed
  then obtain cs2 where
    cs2: "for_children (\<lambda>child. quad_node_insert (Suc n) child p) (map ?g ?cs0) = Some cs2"
    by blast
  show ?thesis
    using True cs1 cs2 by (simp add: quad_node_is_leaf_def quad_node_subdivide_def)
qed

lemma leaf_insert_separated:
  "\<bar>width b\<bar> \<le> 2 ^ k * \<bar>vx (position p) - vx (position q)\<bar>
     \<or> \<bar>height b\<bar> \<le> 2 ^ k * \<bar>vy (position p) - vy (position q)\<bar> \<Longrightarrow>
   \<exists>t. quad_node_insert (Suc (Suc k)) (Quad_node tm com b (Some q) []) p = Some t"
proof (induction k arbitrary: b tm com)
  case 0
  show ?case
  proof (rule leaf_insert_step)
    fix b' assume b': "b' \<in> set (quadrants b)"
      and "contains b' (position p)" "contains b' (position q)"
    then have d: "\<bar>vx (position p) - vx (position q)\<bar> < \<bar>width b'\<bar>"
                 "\<bar>vy (position p) - vy (position q)\<bar> < \<bar>height b'\<bar>"
      using contains_both by blast+
    have s: "\<bar>width b'\<bar> = \<bar>width b\<bar> / 2" "\<bar>height b'\<bar> = \<bar>height b\<bar> / 2"
      using quadrants_abs_size[OF b'] by simp_all
    have nn: "0 \<le> \<bar>vx (position p) - vx (position q)\<bar>"
             "0 \<le> \<bar>vy (position p) - vy (position q)\<bar>" by simp_all
    have "\<bar>width b\<bar> \<le> \<bar>vx (position p) - vx (position q)\<bar>
        \<or> \<bar>height b\<bar> \<le> \<bar>vy (position p) - vy (position q)\<bar>"
      using 0 by simp
    then have False
    proof
      assume "\<bar>width b\<bar> \<le> \<bar>vx (position p) - vx (position q)\<bar>"
      then show False using d(1) s(1) nn(1) by linarith
    next
      assume "\<bar>height b\<bar> \<le> \<bar>vy (position p) - vy (position q)\<bar>"
      then show False using d(2) s(2) nn(2) by linarith
    qed
    then show "\<exists>t. quad_node_insert (Suc 0) (Quad_node 0 (Vector2f 0 0) b' (Some q) []) p = Some t" ..
  qed
next
  case (Suc k)
  show ?case
  proof (rule leaf_insert_step)
    fix b' assume b': "b' \<in> set (quadrants b)"
    have "\<bar>width b'\<bar> \<le> 2 ^ k * \<bar>vx (position p) - vx (position q)\<bar>
     \<or> \<bar>height b'\<bar> \<le> 2 ^ k * \<bar>vy (position p) - vy (position q)\<bar>"
    proof -
      have "\<bar>width b'\<bar> = \<bar>width b\<bar> / 2" "\<bar>height b'\<bar> = \<bar>height b\<bar> / 2"
        using quadrants_abs_size[OF b'] by simp_all
      then show ?thesis using Suc.prems by auto
    qed
    then show "\<exists>t. quad_node_insert (Suc (Suc k)) (Quad_node 0 (Vector2f 0 0) b' (Some q) []) p = Some t"
      by (rule Suc.IH)
  qed
qed

lemma separation_depth:
  assumes "u \<noteq> v"
  shows "\<exists>k. \<bar>w\<bar> \<le> 2 ^ k * \<bar>vx u - vx v\<bar> \<or> \<bar>h\<bar> \<le> 2 ^ k * \<bar>vy u - vy v\<bar>"
proof -
  have arch: "\<exists>k. a \<le> 2 ^ k * d" if "0 < d" for a d :: real
  proof -
    obtain k where "a / d < 2 ^ k" using real_arch_pow[of 2 "a / d"] by auto
    then have "a < 2 ^ k * d" using that by (simp add: field_simps)
    then show ?thesis by (intro exI[of _ k]) simp
  qed
  from assms have "vx u \<noteq> vx v \<or> vy u \<noteq> vy v" by (simp add: vec_eq_iff)
  then show ?thesis
  proof
    assume "vx u \<noteq> vx v"
    then have "0 < \<bar>vx u - vx v\<bar>" by simp
    from arch[OF this, of "\<bar>w\<bar>"] show ?thesis by blast
  next
    assume "vy u \<noteq> vy v"
    then have "0 < \<bar>vy u - vy v\<bar>" by simp
    from arch[OF this, of "\<bar>h\<bar>"] show ?thesis by blast
  qed
qed

lemma children_common_fuel:
  "(\<And>c. c \<in> set cs \<Longrightarrow> \<exists>n t. quad_node_insert n c p = Some t) \<Longrightarrow>
     \<exists>N. \<forall>c\<in>set cs. \<exists>t. quad_node_insert N c p = Some t"
proof (induction cs)
  case Nil
  then show ?case by simp
next
  case (Cons c cs)
  obtain n t where n: "quad_node_insert n c p = Some t" using Cons.prems[of c] by auto
  obtain N where N: "\<forall>c\<in>set cs. \<exists>t. quad_node_insert N c p = Some t"
    using Cons by auto
  have "\<exists>t. quad_node_insert (max n N) c' p = Some t" if mem: "c' \<in> set (c # cs)" for c'
  proof (cases "c' = c")
    case True
    then show ?thesis using insert_fuel_mono[OF n, of "max n N"] by simp
  next
    case False
    then obtain t' where "quad_node_insert N c' p = Some t'" using mem N by auto
    from insert_fuel_mono[OF this, of "max n N"] show ?thesis by simp
  qed
  then show ?case by blast
qed

lemma insert_terminates:
  "(\<And>q. q \<in> set (quad_node_points node) \<Longrightarrow> position q \<noteq> position p) \<Longrightarrow>
     \<exists>n t. quad_node_insert n node p = Some t"
proof (induction node)
  case (Quad_node tm com b pt cs)
  show ?case
  proof (cases "cs = []")
    case leaf: True
    show ?thesis
    proof (cases pt)
      case None
      then have "\<exists>t. quad_node_insert (Suc 0) (Quad_node tm com b pt cs) p = Some t"
        using leaf by (simp add: quad_node_is_leaf_def)
      then show ?thesis by blast
    next
      case (Some q)
      then have "position p \<noteq> position q"
        using Quad_node.prems[of q] leaf by (auto simp: quad_node_is_leaf_def)
      from separation_depth[OF this, of "width b" "height b"] obtain k where
        "\<bar>width b\<bar> \<le> 2 ^ k * \<bar>vx (position p) - vx (position q)\<bar>
           \<or> \<bar>height b\<bar> \<le> 2 ^ k * \<bar>vy (position p) - vy (position q)\<bar>" ..
      from leaf_insert_separated[OF this, of tm com] show ?thesis
        using leaf Some by blast
    qed
  next
    case internal: False
    have "\<And>c. c \<in> set cs \<Longrightarrow> \<exists>n t. quad_node_insert n c p = Some t"
    proof -
      fix c assume c: "c \<in> set cs"
      show "\<exists>n t. quad_node_insert n c p = Some t"
      proof (rule Quad_node.IH[OF c])
        fix q assume "q \<in> set (quad_node_points c)"
        then have "q \<in> set (quad_node_points (Quad_node tm com b pt cs))"
          using c internal by (auto simp: quad_node_is_leaf_def)
        then show "position q \<noteq> position p" by (rule Quad_node.prems)
      qed
    qed
    from children_common_fuel[OF this] obtain N where
      N: "\<forall>c\<in>set cs. \<exists>t. quad_node_insert N c p = Some t" by blast
    obtain cs2 where "for_children (\<lambda>child. quad_node_insert N child p) cs = Some cs2"
      using for_children_total[of cs "\<lambda>child. quad_node_insert N child p"] N by blast
    then have "\<exists>t. quad_node_insert (Suc N) (Quad_node tm com b pt cs) p = Some t"
      using internal by (simp add: quad_node_is_leaf_def)
    then show ?thesis by blast
  qed
qed

lemma insert_points_terminates:
  "distinct (map position ps) \<Longrightarrow>
   (\<And>q. q \<in> set (quad_node_points node) \<Longrightarrow> position q \<notin> position ` set ps) \<Longrightarrow>
     \<exists>n t. insert_points n node ps = Some t"
proof (induction ps arbitrary: node)
  case Nil
  then show ?case by simp
next
  case (Cons p ps)
  have "\<exists>n t. quad_node_insert n node p = Some t"
    by (rule insert_terminates) (use Cons.prems(2) in auto)
  then obtain n1 node1 where 1: "quad_node_insert n1 node p = Some node1" by blast
  have "\<exists>n t. insert_points n node1 ps = Some t"
  proof (rule Cons.IH)
    show "distinct (map position ps)" using Cons.prems(1) by simp
    fix q assume "q \<in> set (quad_node_points node1)"
    then have "q = p \<or> q \<in> set (quad_node_points node)"
      using insert_points_subset[OF 1] by auto
    then show "position q \<notin> position ` set ps"
      using Cons.prems by auto
  qed
  then obtain n2 t where 2: "insert_points n2 node1 ps = Some t" by blast
  have "insert_points (max n1 n2) (node) (p # ps) = Some t"
    using insert_fuel_mono[OF 1, of "max n1 n2"] insert_points_fuel_mono[OF 2, of "max n1 n2"]
    by simp
  then show ?case by blast
qed

lemma well_formed_points_inside:
  "well_formed node \<Longrightarrow> q \<in> set (quad_node_points node) \<Longrightarrow>
     contains (boundary node) (position q)"
proof (induction node)
  case (Quad_node tm com b pt cs)
  show ?case
  proof (cases "cs = []")
    case True
    then show ?thesis using Quad_node.prems
      by (cases pt) (auto simp: quad_node_is_leaf_def)
  next
    case False
    then obtain c where c: "c \<in> set cs" "q \<in> set (quad_node_points c)"
      using Quad_node.prems(2) by (auto simp: quad_node_is_leaf_def)
    have wf: "map boundary cs = quadrants b" "well_formed c"
      using Quad_node.prems(1) False c(1) by (auto simp: quad_node_is_leaf_def list_all_iff)
    have "boundary c \<in> set (quadrants b)"
      using c(1) wf(1)[symmetric] by auto
    moreover have "contains (boundary c) (position q)"
      using Quad_node.IH[OF c(1) wf(2) c(2)] .
    ultimately show ?thesis using quadrant_subset by auto
  qed
qed

lemma insert_diverges:
  "well_formed node \<Longrightarrow> q \<in> set (quad_node_points node) \<Longrightarrow> position q = position p \<Longrightarrow>
     quad_node_insert n node p = None"
proof (induction n arbitrary: node)
  case 0
  then show ?case by simp
next
  case (Suc n)
  obtain tm com b pt cs where node: "node = Quad_node tm com b pt cs" by (cases node)
  have inb: "contains b (position p)"
    using well_formed_points_inside[OF Suc.prems(1,2)] Suc.prems(3) node by simp
  show ?case
  proof (cases "cs = []")
    case leaf: True
    then have pt: "pt = Some q"
      using Suc.prems(2) node by (cases pt) (auto simp: quad_node_is_leaf_def)
    let ?cs0 = "map quad_node_init (quadrants b)"
    show ?thesis
    proof (cases "for_children (\<lambda>child. quad_node_insert n child q) ?cs0")
      case None
      then show ?thesis using node leaf pt inb
        by (simp add: quad_node_is_leaf_def quad_node_subdivide_def)
    next
      case (Some cs1)
      then have l2: "list_all2 (\<lambda>c c'. quad_node_insert n c q = Some c') ?cs0 cs1"
        by (simp add: for_children_Some_iff)
      obtain b' where b': "b' \<in> set (quadrants b)" "contains b' (position q)"
        using quadrant_exists[OF inb] Suc.prems(3) by auto
      then obtain i where i: "i < length (quadrants b)" "quadrants b ! i = b'"
        by (auto simp: in_set_conv_nth)
      have "quad_node_insert n (?cs0 ! i) q = Some (cs1 ! i)"
        using list_all2_nthD[OF l2, of i] i(1) by simp
      then have ci: "quad_node_insert n (quad_node_init b') q = Some (cs1 ! i)"
        using i by simp
      then obtain m where m: "n = Suc m" by (cases n) auto
      have c1: "cs1 ! i = Quad_node 0 (Vector2f 0 0) b' (Some q) []"
        using ci b'(2) unfolding m insert_init by simp
      have mem: "cs1 ! i \<in> set cs1"
        using list_all2_lengthD[OF l2] i(1) by simp
      have "quad_node_insert n (cs1 ! i) p = None"
        by (rule Suc.IH) (use c1 b'(2) Suc.prems(3) in \<open>simp_all add: quad_node_is_leaf_def\<close>)
      then have "for_children (\<lambda>child. quad_node_insert n child p) cs1 = None"
        using mem by (intro for_children_None[of "cs1 ! i"]) simp_all
      then show ?thesis using node leaf pt inb Some
        by (simp add: quad_node_is_leaf_def quad_node_subdivide_def)
    qed
  next
    case internal: False
    then obtain c where c: "c \<in> set cs" "q \<in> set (quad_node_points c)"
      using Suc.prems(2) node by (auto simp: quad_node_is_leaf_def)
    have wf: "well_formed c"
      using Suc.prems(1) node internal c(1) by (auto simp: quad_node_is_leaf_def list_all_iff)
    have "quad_node_insert n c p = None"
      using Suc.IH[OF wf c(2) Suc.prems(3)] .
    then have "for_children (\<lambda>child. quad_node_insert n child p) cs = None"
      using c(1) by (intro for_children_None[of c]) simp_all
    then show ?thesis using node internal inb
      by (simp add: quad_node_is_leaf_def)
  qed
qed

lemma insert_points_drop:
  "\<not> contains (boundary node) (position p) \<Longrightarrow>
     insert_points (Suc n) node (ps @ p # ps') = insert_points (Suc n) node (ps @ ps')"
proof (induction ps arbitrary: node)
  case Nil
  then show ?case using insert_outside[of node p n] by simp
next
  case (Cons x ps)
  show ?case
  proof (cases "quad_node_insert (Suc n) node x")
    case None
    then show ?thesis by simp
  next
    case (Some node1)
    have "boundary node1 = boundary node" using Some by (rule insert_boundary)
    then have "insert_points (Suc n) node1 (ps @ p # ps') = insert_points (Suc n) node1 (ps @ ps')"
      using Cons.prems by (intro Cons.IH) simp
    then show ?thesis using Some by simp
  qed
qed

lemma build_tree_fuel_mono:
  "build_tree n b ps = Some node \<Longrightarrow> n \<le> m \<Longrightarrow> build_tree m b ps = Some node"
  by (auto simp: build_tree_def dest: insert_points_fuel_mono)

section \<open>Lemmas on the scenarios\<close>

lemma sqrt_65025: "sqrt 65025 = 255"
  by (rule real_sqrt_unique) simp_all

lemma two_point_build:
  "build_tree 4 world_boundary
     [point_init 1 (Vector2f 0 0) (Vector2f 0 0), point_init 1 (Vector2f 100 0) (Vector2f 0 0)]
   = Some two_point_tree"
  by (simp add: build_tree_def world_boundary_def quad_node_init_def point_init_def
        numeral_eq_Suc contains_def quad_node_is_leaf_def quad_node_subdivide_def quadrants_def
        Let_def vec_add_def vec_mul_def vec_div_def two_point_tree_def)

lemma sqrt_2725: "sqrt 2725 < 400" "0 < sqrt 2725"
proof -
  show "sqrt 2725 < 400"
    by (rule real_less_lsqrt) (simp_all add: power2_eq_square)
  show "0 < sqrt 2725" by simp
qed

lemma two_point_ratios:
  "\<not> 800 / sqrt 2725 < 1 / 2" "\<not> 400 / sqrt 2725 < 1 / 2" "\<not> 200 / sqrt 2725 < 1 / 2"
  using sqrt_2725 by (simp_all add: field_simps)

lemma two_point_force_A:
  "quad_node_compute_force two_point_tree
     \<lparr>mass = 1, position = Vector2f 0 0, velocity = Vector2f 0 0\<rparr>
   = Inr \<lparr>mass = 1, position = Vector2f 0 0,
          velocity = Vector2f (1 / (1045 * sqrt 10225)) 0\<rparr>"
  using two_point_ratios
  by (simp add: two_point_tree_def quad_node_is_leaf_def SOFTENING_def GRAVITY_CONSTANT_def
        TIME_STEP_def THETA_def vec_add_def vec_sub_def vec_mul_def vec_div_def Let_def)

lemma two_point_force_B:
  "quad_node_compute_force two_point_tree
     \<lparr>mass = 1, position = Vector2f 100 0, velocity = Vector2f 0 0\<rparr>
   = Inr \<lparr>mass = 1, position = Vector2f 100 0,
          velocity = Vector2f (- 1 / (1045 * sqrt 10225)) 0\<rparr>"
  using two_point_ratios
  by (simp add: two_point_tree_def quad_node_is_leaf_def SOFTENING_def GRAVITY_CONSTANT_def
        TIME_STEP_def THETA_def vec_add_def vec_sub_def vec_mul_def vec_div_def Let_def)

lemma sqrt_10225: "10111 / 100 < sqrt 10225" "sqrt 10225 < 10112 / 100"
proof -
  show "10111 / 100 < sqrt 10225"
    by (rule real_less_rsqrt) (simp add: power2_eq_square)
  show "sqrt 10225 < 10112 / 100"
    by (rule real_less_lsqrt) (simp_all add: power2_eq_square)
qed

lemma two_point_magnitude:
  "946 / 10 ^ 8 < 1 / (1045 * sqrt 10225)" "1 / (1045 * sqrt 10225) < 947 / 10 ^ 8"
proof -
  have pos: "0 < sqrt 10225" by simp
  have "1045 * sqrt 10225 < 10 ^ 8 / 946"
    using sqrt_10225(2) by simp
  then show "946 / 10 ^ 8 < 1 / (1045 * sqrt 10225)"
    using pos by (simp add: field_simps)
  have "10 ^ 8 / 947 < 1045 * sqrt 10225"
    using sqrt_10225(1) by simp
  then show "1 / (1045 * sqrt 10225) < 947 / 10 ^ 8"
    using pos by (simp add: field_simps)
qed

lemma sqrt_2725_lower: "8 < sqrt 2725"
  by (rule real_less_rsqrt) (simp add: power2_eq_square)

lemma two_point_exact_interactions:
  "exact_interactions 100 two_point_tree \<lparr>mass = 1, position = Vector2f 0 0, velocity = Vector2f 0 0\<rparr> = 0"
  "exact_interactions (1 / 2) two_point_tree \<lparr>mass = 1, position = Vector2f 0 0, velocity = Vector2f 0 0\<rparr> = 1"
proof -
  have "800 / sqrt 2725 < 100"
    using sqrt_2725_lower by (simp add: field_simps)
  then show "exact_interactions 100 two_point_tree
      \<lparr>mass = 1, position = Vector2f 0 0, velocity = Vector2f 0 0\<rparr> = 0"
    by (simp add: two_point_tree_def quad_node_is_leaf_def SOFTENING_def vec_sub_def Let_def)
  show "exact_interactions (1 / 2) two_point_tree
      \<lparr>mass = 1, position = Vector2f 0 0, velocity = Vector2f 0 0\<rparr> = 1"
    using two_point_ratios
    by (simp add: two_point_tree_def quad_node_is_leaf_def SOFTENING_def vec_sub_def Let_def)
qed

lemma two_point_result:
  "4 \<le> n \<Longrightarrow>
   simulation_tick n world_boundary
     [point_init 1 (Vector2f 0 0) (Vector2f 0 0), point_init 1 (Vector2f 100 0) (Vector2f 0 0)]
   = Some [Inr \<lparr>mass = 1, position = Vector2f (1 / (1045 * sqrt 10225)) 0,
                velocity = Vector2f (1 / (1045 * sqrt 10225)) 0\<rparr>,
           Inr \<lparr>mass = 1, position = Vector2f (100 - 1 / (1045 * sqrt 10225)) 0,
                velocity = Vector2f (- (1 / (1045 * sqrt 10225))) 0\<rparr>]"
  unfolding simulation_tick_def build_tree_fuel_mono[OF two_point_build]
  by (simp add: step_point_def point_init_def two_point_force_A two_point_force_B
        vec_add_def vec_mul_def TIME_STEP_def)

section \<open>Lemmas on two bodies\<close>

lemma velocity_change_skip:
  "tm = 0 \<or> position p = com \<Longrightarrow> velocity_change (Quad_node tm com b pt cs) p = Vector2f 0 0"
  by (simp add: velocity_change_def vec_eq_iff)

lemma velocity_change_aggregate:
  assumes "tm \<noteq> 0" and "position p \<noteq> com" and "mass p \<noteq> 0"
    and "cs = [] \<or> width b / sqrt (vx (vec_sub com (position p)) * vx (vec_sub com (position p))
                        + vy (vec_sub com (position p)) * vy (vec_sub com (position p))
                        + SOFTENING * SOFTENING) < THETA"
  shows "velocity_change (Quad_node tm com b pt cs) p
       = vec_mul (vec_mul (vec_div (vec_sub com (position p))
            (sqrt (vx (vec_sub com (position p)) * vx (vec_sub com (position p))
                        + vy (vec_sub com (position p)) * vy (vec_sub com (position p))
                        + SOFTENING * SOFTENING)))
            (GRAVITY_CONSTANT * tm
              / (sqrt (vx (vec_sub com (position p)) * vx (vec_sub com (position p))
                        + vy (vec_sub com (position p)) * vy (vec_sub com (position p))
                        + SOFTENING * SOFTENING)
                 * sqrt (vx (vec_sub com (position p)) * vx (vec_sub com (position p))
                        + vy (vec_sub com (position p)) * vy (vec_sub com (position p))
                        + SOFTENING * SOFTENING)
                 + SOFTENING * SOFTENING))) TIME_STEP"
proof -
  let ?dir = "vec_sub com (position p)"
  let ?dist = "sqrt (vx ?dir * vx ?dir + vy ?dir * vy ?dir + SOFTENING * SOFTENING)"
  have dpos: "?dist > 0" by (rule distance_pos)
  have den: "?dist * ?dist + SOFTENING * SOFTENING > 0"
    using dpos by (simp add: SOFTENING_def add_pos_pos)
  have dn: "?dist \<noteq> 0" "?dist * ?dist + SOFTENING * SOFTENING \<noteq> 0"
    using dpos den by simp_all
  have ne: "\<not> (tm = 0 \<or> position p = com)" using assms by auto
  have c: "quad_node_is_leaf (Quad_node tm com b pt cs) \<or> width b / ?dist < THETA"
    using assms(4) by (simp add: quad_node_is_leaf_def)
  have "quad_node_compute_force (Quad_node tm com b pt cs) p
          = Inr (p\<lparr>velocity := vec_add (velocity p)
                   (vec_mul (vec_div (vec_mul (vec_div ?dir ?dist)
                      (GRAVITY_CONSTANT * tm * mass p / (?dist * ?dist + SOFTENING * SOFTENING)))
                      (mass p)) TIME_STEP)\<rparr>)"
    by (subst quad_node_compute_force.simps)
       (simp only: Let_def dn assms(3) ne c if_False if_True)
  then have "velocity_change (Quad_node tm com b pt cs) p
       = vec_mul (vec_div (vec_mul (vec_div ?dir ?dist)
                      (GRAVITY_CONSTANT * tm * mass p / (?dist * ?dist + SOFTENING * SOFTENING)))
                      (mass p)) TIME_STEP"
    by (simp add: velocity_change_def vec_eq_iff)
  also have "\<dots> = vec_mul (vec_mul (vec_div ?dir ?dist)
                      (GRAVITY_CONSTANT * tm / (?dist * ?dist + SOFTENING * SOFTENING))) TIME_STEP"
    using assms(3) by (simp add: vec_eq_iff)
  finally show ?thesis .
qed

lemma fold_vec_add_sel:
  "vx (fold (\<lambda>c v. vec_add v (d c)) cs a) = vx a + (\<Sum>c\<leftarrow>cs. vx (d c))"
  "vy (fold (\<lambda>c v. vec_add v (d c)) cs a) = vy a + (\<Sum>c\<leftarrow>cs. vy (d c))"
  by (induction cs arbitrary: a) simp_all

lemma foldl_vec_add_sel:
  "vx (foldl (\<lambda>v c. vec_add v (d c)) a cs) = vx a + (\<Sum>c\<leftarrow>cs. vx (d c))"
  "vy (foldl (\<lambda>v c. vec_add v (d c)) a cs) = vy a + (\<Sum>c\<leftarrow>cs. vy (d c))"
  by (induction cs arbitrary: a) simp_all

lemma velocity_change_recurse:
  assumes "tm \<noteq> 0" and "position p \<noteq> com" and "mass p \<noteq> 0"
    and "\<not> (cs = [] \<or> width b / sqrt (vx (vec_sub com (position p)) * vx (vec_sub com (position p))
                        + vy (vec_sub com (position p)) * vy (vec_sub com (position p))
                        + SOFTENING * SOFTENING) < THETA)"
  shows "vx (velocity_change (Quad_node tm com b pt cs) p) = (\<Sum>c\<leftarrow>cs. vx (velocity_change c p))"
    and "vy (velocity_change (Quad_node tm com b pt cs) p) = (\<Sum>c\<leftarrow>cs. vy (velocity_change c p))"
proof -
  let ?dir = "vec_sub com (position p)"
  let ?dist = "sqrt (vx ?dir * vx ?dir + vy ?dir * vy ?dir + SOFTENING * SOFTENING)"
  have dpos: "?dist > 0" by (rule distance_pos)
  have dn: "?dist \<noteq> 0" using dpos by simp
  have ne: "\<not> (tm = 0 \<or> position p = com)" using assms by auto
  have c: "\<not> (quad_node_is_leaf (Quad_node tm com b pt cs) \<or> width b / ?dist < THETA)"
    using assms(4) by (simp add: quad_node_is_leaf_def)
  have "quad_node_compute_force (Quad_node tm com b pt cs) p
          = fold (\<lambda>child r. case r of Inl e \<Rightarrow> Inl e | Inr q \<Rightarrow> quad_node_compute_force child q) cs (Inr p)"
    by (subst quad_node_compute_force.simps)
       (simp only: Let_def dn assms(3) ne c if_False if_True)
  also have "\<dots> = Inr (p\<lparr>velocity := fold (\<lambda>child v. vec_add v (velocity_change child p)) cs (velocity p)\<rparr>)"
    by (rule fold_force_velocity_change[OF assms(3)])
  finally have "velocity_change (Quad_node tm com b pt cs) p
       = vec_sub (fold (\<lambda>child v. vec_add v (velocity_change child p)) cs (velocity p)) (velocity p)"
    by (simp add: velocity_change_def)
  then show "vx (velocity_change (Quad_node tm com b pt cs) p) = (\<Sum>c\<leftarrow>cs. vx (velocity_change c p))"
    and "vy (velocity_change (Quad_node tm com b pt cs) p) = (\<Sum>c\<leftarrow>cs. vy (velocity_change c p))"
    by (simp_all add: fold_vec_add_sel)
qed

lemma list_all2_map_eq:
  "list_all2 R xs ys \<Longrightarrow> (\<And>x y. R x y \<Longrightarrow> f y = g x) \<Longrightarrow> map f ys = map g xs"
  by (induction rule: list_all2_induct) simp_all

lemma for_children_map_unique:
  "for_children f cs = Some cs' \<Longrightarrow> (\<And>c. c \<in> set cs \<Longrightarrow> f c = Some (g c)) \<Longrightarrow> cs' = map g cs"
  using for_children_map[of cs f g] by simp

lemma sum_list_linear2:
  "(\<Sum>q\<leftarrow>qs. (f q * x + g q * y) * (z :: real))
   = ((\<Sum>q\<leftarrow>qs. f q) * x + (\<Sum>q\<leftarrow>qs. g q) * y) * z"
  by (induction qs) (simp_all add: algebra_simps)

lemma sum_indicator_quadrants:
  "(\<Sum>q\<leftarrow>quadrants b. (of_bool (contains q u) * x + of_bool (contains q v) * y) * (z :: real))
   = (of_bool (contains b u) * x + of_bool (contains b v) * y) * z"
  by (simp only: sum_list_linear2 sum_contains_quadrants)

lemma neg_scaled: "(x - y) * k1 * k2 / d = - ((y - x) * k1 * k2 / d)" for x y k1 k2 d :: real
proof -
  have e: "- ((y - x) * k1 * k2) = (x - y) * k1 * k2" by (simp add: algebra_simps)
  show ?thesis unfolding minus_divide_left e ..
qed

lemma two_body_subtree:
  fixes m :: real and A B vA vB :: Vector2f
  defines "pA \<equiv> \<lparr>mass = m, position = A, velocity = vA\<rparr>"
    and "pB \<equiv> \<lparr>mass = m, position = B, velocity = vB\<rparr>"
    and "sep \<equiv> sqrt (vx (vec_sub A B) * vx (vec_sub A B) + vy (vec_sub A B) * vy (vec_sub A B)
                       + SOFTENING * SOFTENING)"
  defines "G \<equiv> vec_mul (vec_mul (vec_div (vec_sub A B) sep)
                   (GRAVITY_CONSTANT * m / (sep * sep + SOFTENING * SOFTENING))) TIME_STEP"
  assumes m: "0 < m" and AB: "A \<noteq> B"
    and ins: "quad_node_insert n
               (if contains b A then Quad_node 0 (Vector2f 0 0) b (Some pA) [] else quad_node_init b)
               pB = Some t"
  shows "total_mass (quad_node_compute_mass t)
           = (of_bool (contains b A) * 1 + of_bool (contains b B) * 1) * m
       \<and> vx (center_of_mass (quad_node_compute_mass t)) * total_mass (quad_node_compute_mass t)
           = (of_bool (contains b A) * vx A + of_bool (contains b B) * vx B) * m
       \<and> vy (center_of_mass (quad_node_compute_mass t)) * total_mass (quad_node_compute_mass t)
           = (of_bool (contains b A) * vy A + of_bool (contains b B) * vy B) * m
       \<and> vx (velocity_change (quad_node_compute_mass t) pA)
           + vx (velocity_change (quad_node_compute_mass t) pB)
           = (of_bool (contains b A) * vx G + of_bool (contains b B) * (- vx G)) * 1
       \<and> vy (velocity_change (quad_node_compute_mass t) pA)
           + vy (velocity_change (quad_node_compute_mass t) pB)
           = (of_bool (contains b A) * vy G + of_bool (contains b B) * (- vy G)) * 1"
  using ins
proof (induction n arbitrary: b t)
  case 0
  then show ?case by simp
next
  case (Suc k)
  have mA: "mass pA = m" "position pA = A" and mB: "mass pB = m" "position pB = B"
    by (simp_all add: pA_def pB_def)
  have m0: "m \<noteq> 0" using m by simp
  have BA: "B \<noteq> A" using AB by simp
  show ?case
  proof (cases "contains b B")
    case nB: False
    then have t: "t = (if contains b A then Quad_node 0 (Vector2f 0 0) b (Some pA) []
                       else quad_node_init b)"
      using Suc.prems by (simp add: mB quad_node_init_def split: if_splits)
    show ?thesis
    proof (cases "contains b A")
      case False
      then show ?thesis using nB t
        by (simp add: quad_node_init_def quad_node_is_leaf_def velocity_change_skip)
    next
      case True
      have cm: "quad_node_compute_mass t = Quad_node m A b (Some pA) []"
        using True t by (simp add: quad_node_is_leaf_def mA)
      have 1: "velocity_change (Quad_node m A b (Some pA) []) pA = Vector2f 0 0"
        by (rule velocity_change_skip) (simp add: mA)
      have 2: "velocity_change (Quad_node m A b (Some pA) []) pB = G"
        unfolding G_def sep_def
        using velocity_change_aggregate[of m pB A "[]" b "Some pA"] m0 BA
        by (simp add: mB)
      show ?thesis unfolding cm using True nB by (simp add: 1 2)
    qed
  next
    case iB: True
    show ?thesis
    proof (cases "contains b A")
      case nA: False
      then have t: "t = Quad_node 0 (Vector2f 0 0) b (Some pB) []"
        using Suc.prems iB by (simp add: mB quad_node_init_def quad_node_is_leaf_def)
      have cm: "quad_node_compute_mass t = Quad_node m B b (Some pB) []"
        using t by (simp add: quad_node_is_leaf_def mB)
      have 1: "velocity_change (Quad_node m B b (Some pB) []) pB = Vector2f 0 0"
        by (rule velocity_change_skip) (simp add: mB)
      have sq: "vx (vec_sub B A) * vx (vec_sub B A) + vy (vec_sub B A) * vy (vec_sub B A)
              = vx (vec_sub A B) * vx (vec_sub A B) + vy (vec_sub A B) * vy (vec_sub A B)"
        by (simp add: algebra_simps)
      have vc: "velocity_change (Quad_node m B b (Some pB) []) pA
          = vec_mul (vec_mul (vec_div (vec_sub B A) sep)
                   (GRAVITY_CONSTANT * m / (sep * sep + SOFTENING * SOFTENING))) TIME_STEP"
        unfolding sep_def sq[symmetric]
        using velocity_change_aggregate[of m pA B "[]" b "Some pB"] m0 AB
        by (simp add: mA)
      have 2: "vx (velocity_change (Quad_node m B b (Some pB) []) pA) = - vx G"
              "vy (velocity_change (Quad_node m B b (Some pB) []) pA) = - vy G"
      proof -
        show "vx (velocity_change (Quad_node m B b (Some pB) []) pA) = - vx G"
          unfolding vc G_def by simp (rule neg_scaled)
        show "vy (velocity_change (Quad_node m B b (Some pB) []) pA) = - vy G"
          unfolding vc G_def by simp (rule neg_scaled)
      qed
      show ?thesis unfolding cm using nA iB by (simp add: 1 2)
    next
      case iA: True
      let ?node0 = "\<lambda>q. if contains q A then Quad_node 0 (Vector2f 0 0) q (Some pA) []
                         else quad_node_init q"
      obtain cs1 cs2 where
        cs1: "for_children (\<lambda>child. quad_node_insert k child pA)
                (map quad_node_init (quadrants b)) = Some cs1"
        and cs2: "for_children (\<lambda>child. quad_node_insert k child pB) cs1 = Some cs2"
        and t: "t = Quad_node 0 (Vector2f 0 0) b None cs2"
        using Suc.prems iA iB
        by (auto simp: mB quad_node_is_leaf_def quad_node_subdivide_def split: Option.bind_splits)
      obtain j where k: "k = Suc j"
      proof (cases k)
        case 0
        then have "for_children (\<lambda>child. quad_node_insert k child pA)
                (map quad_node_init (quadrants b)) = None"
          by (simp add: quadrants_def Let_def)
        then show ?thesis using cs1 by simp
      next
        case (Suc j)
        then show ?thesis using that by simp
      qed
      have "cs1 = map (\<lambda>c. ?node0 (boundary c)) (map quad_node_init (quadrants b))"
        using cs1
      proof (rule for_children_map_unique)
        fix c assume "c \<in> set (map quad_node_init (quadrants b))"
        then obtain q where "c = quad_node_init q" by auto
        then show "quad_node_insert k c pA = Some (?node0 (boundary c))"
          unfolding k by (simp add: insert_init boundary_init mA)
      qed
      then have cs1': "cs1 = map ?node0 (quadrants b)"
        by (simp add: o_def boundary_init)
      have l2: "list_all2 (\<lambda>q c. quad_node_insert k (?node0 q) pB = Some c) (quadrants b) cs2"
        using cs2 unfolding cs1' for_children_Some_iff by (simp add: list_all2_map1)
      let ?cs = "map quad_node_compute_mass cs2"
      have len: "length cs2 = 4" using list_all2_lengthD[OF l2] by simp
      then have ne: "cs2 \<noteq> []" by auto
      have e1: "map (\<lambda>c. total_mass (quad_node_compute_mass c)) cs2
              = map (\<lambda>q. (of_bool (contains q A) * 1 + of_bool (contains q B) * 1) * m) (quadrants b)"
        by (rule list_all2_map_eq[OF l2]) (use Suc.IH in blast)
      have e2: "map (\<lambda>c. vx (center_of_mass (quad_node_compute_mass c))
                           * total_mass (quad_node_compute_mass c)) cs2
              = map (\<lambda>q. (of_bool (contains q A) * vx A + of_bool (contains q B) * vx B) * m)
                    (quadrants b)"
        by (rule list_all2_map_eq[OF l2]) (use Suc.IH in blast)
      have e3: "map (\<lambda>c. vy (center_of_mass (quad_node_compute_mass c))
                           * total_mass (quad_node_compute_mass c)) cs2
              = map (\<lambda>q. (of_bool (contains q A) * vy A + of_bool (contains q B) * vy B) * m)
                    (quadrants b)"
        by (rule list_all2_map_eq[OF l2]) (use Suc.IH in blast)
      have e4: "map (\<lambda>c. vx (velocity_change (quad_node_compute_mass c) pA)
                         + vx (velocity_change (quad_node_compute_mass c) pB)) cs2
              = map (\<lambda>q. (of_bool (contains q A) * vx G + of_bool (contains q B) * (- vx G)) * 1)
                    (quadrants b)"
        by (rule list_all2_map_eq[OF l2]) (use Suc.IH in blast)
      have e5: "map (\<lambda>c. vy (velocity_change (quad_node_compute_mass c) pA)
                         + vy (velocity_change (quad_node_compute_mass c) pB)) cs2
              = map (\<lambda>q. (of_bool (contains q A) * vy G + of_bool (contains q B) * (- vy G)) * 1)
                    (quadrants b)"
        by (rule list_all2_map_eq[OF l2]) (use Suc.IH in blast)
      have s1: "(\<Sum>c\<leftarrow>cs2. total_mass (quad_node_compute_mass c)) = 2 * m"
      proof -
        have "(\<Sum>c\<leftarrow>cs2. total_mass (quad_node_compute_mass c))
            = (\<Sum>q\<leftarrow>quadrants b. (of_bool (contains q A) * 1 + of_bool (contains q B) * 1) * m)"
          using arg_cong[OF e1, of sum_list] .
        also have "\<dots> = (of_bool (contains b A) * 1 + of_bool (contains b B) * 1) * m"
          by (rule sum_indicator_quadrants)
        also have "\<dots> = 2 * m" using iA iB by simp
        finally show ?thesis .
      qed
      have s2: "(\<Sum>c\<leftarrow>cs2. vx (center_of_mass (quad_node_compute_mass c)) * total_mass (quad_node_compute_mass c)) = (vx A + vx B) * m"
      proof -
        have "(\<Sum>c\<leftarrow>cs2. vx (center_of_mass (quad_node_compute_mass c)) * total_mass (quad_node_compute_mass c))
            = (\<Sum>q\<leftarrow>quadrants b. (of_bool (contains q A) * vx A + of_bool (contains q B) * vx B) * m)"
          using arg_cong[OF e2, of sum_list] .
        also have "\<dots> = (of_bool (contains b A) * vx A + of_bool (contains b B) * vx B) * m"
          by (rule sum_indicator_quadrants)
        also have "\<dots> = (vx A + vx B) * m" using iA iB by simp
        finally show ?thesis .
      qed
      have s3: "(\<Sum>c\<leftarrow>cs2. vy (center_of_mass (quad_node_compute_mass c)) * total_mass (quad_node_compute_mass c)) = (vy A + vy B) * m"
      proof -
        have "(\<Sum>c\<leftarrow>cs2. vy (center_of_mass (quad_node_compute_mass c)) * total_mass (quad_node_compute_mass c))
            = (\<Sum>q\<leftarrow>quadrants b. (of_bool (contains q A) * vy A + of_bool (contains q B) * vy B) * m)"
          using arg_cong[OF e3, of sum_list] .
        also have "\<dots> = (of_bool (contains b A) * vy A + of_bool (contains b B) * vy B) * m"
          by (rule sum_indicator_quadrants)
        also have "\<dots> = (vy A + vy B) * m" using iA iB by simp
        finally show ?thesis .
      qed
      have s4: "(\<Sum>c\<leftarrow>cs2. vx (velocity_change (quad_node_compute_mass c) pA) + vx (velocity_change (quad_node_compute_mass c) pB)) = 0"
      proof -
        have "(\<Sum>c\<leftarrow>cs2. vx (velocity_change (quad_node_compute_mass c) pA) + vx (velocity_change (quad_node_compute_mass c) pB))
            = (\<Sum>q\<leftarrow>quadrants b. (of_bool (contains q A) * vx G + of_bool (contains q B) * (- vx G)) * 1)"
          using arg_cong[OF e4, of sum_list] .
        also have "\<dots> = (of_bool (contains b A) * vx G + of_bool (contains b B) * (- vx G)) * 1"
          by (rule sum_indicator_quadrants)
        also have "\<dots> = 0" using iA iB by simp
        finally show ?thesis .
      qed
      have s5: "(\<Sum>c\<leftarrow>cs2. vy (velocity_change (quad_node_compute_mass c) pA) + vy (velocity_change (quad_node_compute_mass c) pB)) = 0"
      proof -
        have "(\<Sum>c\<leftarrow>cs2. vy (velocity_change (quad_node_compute_mass c) pA) + vy (velocity_change (quad_node_compute_mass c) pB))
            = (\<Sum>q\<leftarrow>quadrants b. (of_bool (contains q A) * vy G + of_bool (contains q B) * (- vy G)) * 1)"
          using arg_cong[OF e5, of sum_list] .
        also have "\<dots> = (of_bool (contains b A) * vy G + of_bool (contains b B) * (- vy G)) * 1"
          by (rule sum_indicator_quadrants)
        also have "\<dots> = 0" using iA iB by simp
        finally show ?thesis .
      qed
      define mid where "mid = Vector2f ((vx A + vx B) / 2) ((vy A + vy B) / 2)"
      have cm: "quad_node_compute_mass t = Quad_node (2 * m) mid b None ?cs"
        unfolding t mid_def using ne m s1 s2 s3
        by (simp add: quad_node_is_leaf_def Let_def foldl_add_sum foldl_vec_add_sel vec_eq_iff o_def)
      have midA: "A \<noteq> mid" and midB: "B \<noteq> mid"
        using AB unfolding mid_def vec_eq_iff by auto
      define dA where "dA = vec_sub mid A"
      define dB where "dB = vec_sub mid B"
      define r where "r = sqrt (vx dA * vx dA + vy dA * vy dA + SOFTENING * SOFTENING)"
      have neg: "vx dB = - vx dA" "vy dB = - vy dA"
        unfolding dA_def dB_def mid_def by (simp_all add: field_simps)
      have rB: "sqrt (vx dB * vx dB + vy dB * vy dB + SOFTENING * SOFTENING) = r"
        unfolding r_def neg by simp
      have force: "vx (velocity_change (Quad_node (2 * m) mid b None ?cs) pA)
                 + vx (velocity_change (Quad_node (2 * m) mid b None ?cs) pB) = 0
               \<and> vy (velocity_change (Quad_node (2 * m) mid b None ?cs) pA)
                 + vy (velocity_change (Quad_node (2 * m) mid b None ?cs) pB) = 0"
      proof (cases "?cs = [] \<or> width b / r < THETA")
        case True
        have a: "velocity_change (Quad_node (2 * m) mid b None ?cs) pA
               = vec_mul (vec_mul (vec_div dA r)
                   (GRAVITY_CONSTANT * (2 * m) / (r * r + SOFTENING * SOFTENING))) TIME_STEP"
          unfolding r_def dA_def
          using velocity_change_aggregate[of "2 * m" pA mid ?cs b None] m0 midA True
          unfolding r_def dA_def by (simp add: mA)
        have b: "velocity_change (Quad_node (2 * m) mid b None ?cs) pB
               = vec_mul (vec_mul (vec_div dB r)
                   (GRAVITY_CONSTANT * (2 * m) / (r * r + SOFTENING * SOFTENING))) TIME_STEP"
          unfolding rB[symmetric] dB_def
          using velocity_change_aggregate[of "2 * m" pB mid ?cs b None] m0 midB True
          unfolding rB[symmetric] dB_def by (simp add: mB)
        show ?thesis unfolding a b by (simp add: neg)
      next
        case False
        have a: "vx (velocity_change (Quad_node (2 * m) mid b None ?cs) pA)
                   = (\<Sum>c\<leftarrow>?cs. vx (velocity_change c pA))"
                "vy (velocity_change (Quad_node (2 * m) mid b None ?cs) pA)
                   = (\<Sum>c\<leftarrow>?cs. vy (velocity_change c pA))"
          using velocity_change_recurse[of "2 * m" pA mid ?cs b None] m0 midA False
          unfolding r_def dA_def by (simp_all add: mA)
        have b: "vx (velocity_change (Quad_node (2 * m) mid b None ?cs) pB)
                   = (\<Sum>c\<leftarrow>?cs. vx (velocity_change c pB))"
                "vy (velocity_change (Quad_node (2 * m) mid b None ?cs) pB)
                   = (\<Sum>c\<leftarrow>?cs. vy (velocity_change c pB))"
          using velocity_change_recurse[of "2 * m" pB mid ?cs b None] m0 midB False
          unfolding rB[symmetric] dB_def by (simp_all add: mB)
        show ?thesis unfolding a b using s4 s5
          by (simp add: o_def sum_list_addf)
      qed
      show ?thesis unfolding cm using iA iB m0 force
        by (simp add: mid_def)
    qed
  qed
qed

text \<open>
  Two bodies of equal mass in exact arithmetic: the tree can be built, and the two
  changes of velocity are opposite.
\<close>

lemma two_body_exact:
  assumes "0 < m" and "A \<noteq> B" and "contains b A" and "contains b B"
  shows "(\<exists>n node. build_tree n b [point_init m A vA, point_init m B vB] = Some node)
       \<and> (\<forall>n node. build_tree n b [point_init m A vA, point_init m B vB] = Some node \<longrightarrow>
            (\<exists>qA qB. quad_node_compute_force node (point_init m A vA) = Inr qA
                   \<and> quad_node_compute_force node (point_init m B vB) = Inr qB
                   \<and> vec_sub (velocity qA) vA = vec_sub vB (velocity qB)
                   \<and> magnitude (vec_sub (velocity qA) vA) = magnitude (vec_sub (velocity qB) vB)))"
proof (intro conjI allI impI)
  have "distinct (map position [point_init m A vA, point_init m B vB])"
    using assms(2) by (simp add: point_init_def)
  then have "\<exists>n t. insert_points n (quad_node_init b) [point_init m A vA, point_init m B vB] = Some t"
    by (rule insert_points_terminates) (simp add: points_init)
  then show "\<exists>n node. build_tree n b [point_init m A vA, point_init m B vB] = Some node"
    by (auto simp: build_tree_def)
next
  fix n node
  assume bt: "build_tree n b [point_init m A vA, point_init m B vB] = Some node"
  let ?pA = "\<lparr>mass = m, position = A, velocity = vA\<rparr>"
  let ?pB = "\<lparr>mass = m, position = B, velocity = vB\<rparr>"
  obtain k where n: "n = Suc k" using bt by (cases n) (auto simp: build_tree_def)
  obtain t where t: "quad_node_insert n (Quad_node 0 (Vector2f 0 0) b (Some ?pA) []) ?pB = Some t"
    and node: "node = quad_node_compute_mass t"
    using bt assms(3) unfolding n
    by (auto simp: build_tree_def point_init_def insert_init split: option.splits)
  have "quad_node_insert n
          (if contains b A then Quad_node 0 (Vector2f 0 0) b (Some ?pA) [] else quad_node_init b)
          ?pB = Some t"
    using t assms(3) by simp
  note inv = two_body_subtree[OF assms(1,2) this]
  have x: "vx (velocity_change node ?pA) + vx (velocity_change node ?pB) = 0"
    and y: "vy (velocity_change node ?pA) + vy (velocity_change node ?pB) = 0"
    using inv assms(3,4) unfolding node by simp_all
  have mA: "mass ?pA \<noteq> 0" and mB: "mass ?pB \<noteq> 0" using assms(1) by simp_all
  let ?qA = "?pA\<lparr>velocity := vec_add (velocity ?pA) (velocity_change node ?pA)\<rparr>"
  let ?qB = "?pB\<lparr>velocity := vec_add (velocity ?pB) (velocity_change node ?pB)\<rparr>"
  have fA: "quad_node_compute_force node (point_init m A vA) = Inr ?qA"
    unfolding point_init_def by (rule compute_force_velocity_change[OF mA])
  have fB: "quad_node_compute_force node (point_init m B vB) = Inr ?qB"
    unfolding point_init_def by (rule compute_force_velocity_change[OF mB])
  have opp: "vec_sub (velocity ?qA) vA = vec_sub vB (velocity ?qB)"
    using x y by (simp add: vec_eq_iff)
  have "vx (vec_sub vB (velocity ?qB)) = - vx (vec_sub (velocity ?qB) vB)"
       "vy (vec_sub vB (velocity ?qB)) = - vy (vec_sub (velocity ?qB) vB)"
    by simp_all
  then have mag: "magnitude (vec_sub (velocity ?qA) vA) = magnitude (vec_sub (velocity ?qB) vB)"
    unfolding opp magnitude_def by (simp only: minus_mult_minus)
  show "\<exists>qA qB. quad_node_compute_force node (point_init m A vA) = Inr qA
                   \<and> quad_node_compute_force node (point_init m B vB) = Inr qB
                   \<and> vec_sub (velocity qA) vA = vec_sub vB (velocity qB)
                   \<and> magnitude (vec_sub (velocity qA) vA) = magnitude (vec_sub (velocity qB) vB)"
    using fA fB opp mag by blast
qed

section \<open>Evaluation in binary32\<close>

text \<open>
  Rewrite rules that evaluate the second embedding on numerals. Doublings are taken
  sixteen or four at a time where the magnitude allows it.
\<close>

lemma round_up_jump:
  "j \<le> k \<Longrightarrow> \<bar>x\<bar> * 2 ^ j \<le> 2 ^ 23 \<Longrightarrow> round_up k x = round_up (k - j) (2 ^ j * x) / 2 ^ j"
proof (induction j arbitrary: k x)
  case 0
  then show ?case by simp
next
  case (Suc j)
  then obtain k' where k: "k = Suc k'" by (cases k) auto
  have lt: "\<bar>x\<bar> < 2 ^ 23"
  proof -
    have "\<bar>x\<bar> * 2 \<le> \<bar>x\<bar> * 2 ^ Suc j"
      by (intro mult_left_mono) (simp_all add: self_le_power)
    then have "\<bar>x\<bar> * 2 \<le> 2 ^ 23" using Suc.prems(2) by linarith
    moreover have "\<bar>x\<bar> \<ge> 0" by simp
    ultimately show ?thesis by (cases "x = 0") (simp, linarith)
  qed
  have "round_up k' (2 * x) = round_up (k' - j) (2 ^ j * (2 * x)) / 2 ^ j"
    using Suc.prems by (intro Suc.IH) (simp_all add: k abs_mult mult_ac)
  then show ?case using lt by (simp add: k mult_ac)
qed

lemma round_up_16:
  "16 \<le> (numeral k :: nat) \<Longrightarrow> \<bar>x\<bar> \<le> 2 ^ 7
   \<Longrightarrow> round_up (numeral k) x = round_up (numeral k - 16) (65536 * x) / 65536"
  using round_up_jump[of 16 "numeral k" x] by simp

lemma round_up_4:
  "4 \<le> (numeral k :: nat) \<Longrightarrow> 2 ^ 7 < \<bar>x\<bar> \<Longrightarrow> \<bar>x\<bar> \<le> 2 ^ 19
   \<Longrightarrow> round_up (numeral k) x = round_up (numeral k - 4) (16 * x) / 16"
  using round_up_jump[of 4 "numeral k" x] by simp

lemma round_up_1:
  "2 ^ 19 < \<bar>x\<bar> \<or> (numeral k :: nat) < 4 \<or> ((numeral k :: nat) < 16 \<and> \<bar>x\<bar> \<le> 2 ^ 7) \<Longrightarrow>
   round_up (numeral k) x
     = (if \<bar>x\<bar> < 2 ^ 23 then round_up (pred_numeral k) (2 * x) / 2 else of_int (rne x))"
  by (simp add: numeral_eq_Suc)

lemma round_up_One:
  "round_up 1 x = (if \<bar>x\<bar> < 2 ^ 23 then of_int (rne (2 * x)) / 2 else of_int (rne x))"
  by simp

lemma round_down_numeral:
  "round_down (numeral k) x
     = (if 2 ^ 24 \<le> \<bar>x\<bar> then 2 * round_down (pred_numeral k) (x / 2) else of_int (rne x))"
  by (simp add: numeral_eq_Suc)

lemma let_value:
  "Let (numeral a / numeral b :: real) f = f (numeral a / numeral b)"
  "Let (- (numeral a / numeral b) :: real) f = f (- (numeral a / numeral b))"
  "Let (1 / numeral b :: real) f = f (1 / numeral b)"
  "Let (- (1 / numeral b) :: real) f = f (- (1 / numeral b))"
  "Let (Vector2f x y) g = g (Vector2f x y)"
  by (simp_all add: Let_def)

lemma insert_b32_numeral:
  "quad_node_insert_b32 (numeral k) (Quad_node tm com b pt cs) p =
     (if \<not> contains_b32 b (position p) then Some (Quad_node tm com b pt cs)
      else if quad_node_is_leaf (Quad_node tm com b pt cs) then
        (case pt of
           None \<Rightarrow> Some (Quad_node tm com b (Some p) cs)
         | Some save \<Rightarrow> do {
             cs1 \<leftarrow> for_children (\<lambda>child. quad_node_insert_b32 (pred_numeral k) child save)
                     (children (quad_node_subdivide_b32 (Quad_node tm com b pt cs)));
             cs2 \<leftarrow> for_children (\<lambda>child. quad_node_insert_b32 (pred_numeral k) child p) cs1;
             Some (Quad_node tm com b None cs2)
           })
      else do {
        cs2 \<leftarrow> for_children (\<lambda>child. quad_node_insert_b32 (pred_numeral k) child p) cs;
        Some (Quad_node tm com b pt cs2)
      })"
  by (simp add: numeral_eq_Suc)

lemmas b32_eval = let_value round_up_16 round_up_4 round_up_1 round_up_One round_down_numeral
  fadd_def fsub_def fmul_def fdiv_def fsqrt_def binary32_def rne_def
  vec_add_b32_def vec_sub_b32_def vec_mul_b32_def vec_div_b32_def

lemmas tree_b32_eval = build_tree_b32_def world_boundary_def quad_node_init_def point_init_def
  insert_b32_numeral contains_b32_def quad_node_is_leaf_def quad_node_subdivide_b32_def
  quadrants_b32_def

lemmas force_b32_eval = SOFTENING_def GRAVITY_CONSTANT_def GRAVITY_CONSTANT_b32_def
  TIME_STEP_def THETA_def

text \<open>The literal \<^verbatim>\<open>0.1f\<close> is \<^verbatim>\<open>0x1.99999ap-4\<close>.\<close>

lemma binary32_tenth: "GRAVITY_CONSTANT_b32 = 13421773 / 2 ^ 27"
  by (simp add: force_b32_eval b32_eval)

lemma sqrt_625: "sqrt 625 = 25"
  by (rule real_sqrt_unique) simp_all

lemma sqrt_225: "sqrt 225 = 15"
  by (rule real_sqrt_unique) simp_all

section \<open>Rounding to binary32\<close>

lemma rne_int [simp]: "rne (of_int m) = m"
  by (simp add: rne_def)

lemma rne_cases:
  obtains (lower) "rne y = \<lfloor>y\<rfloor>" "y - of_int \<lfloor>y\<rfloor> \<le> 1 / 2"
        | (upper) "rne y = \<lfloor>y\<rfloor> + 1" "1 / 2 \<le> y - of_int \<lfloor>y\<rfloor>"
proof -
  define d where "d = y - of_int \<lfloor>y\<rfloor>"
  have r: "rne y = (if d < 1 / 2 then \<lfloor>y\<rfloor> else if 1 / 2 < d then \<lfloor>y\<rfloor> + 1
                    else if even \<lfloor>y\<rfloor> then \<lfloor>y\<rfloor> else \<lfloor>y\<rfloor> + 1)"
    unfolding rne_def Let_def d_def ..
  consider "d < 1 / 2" | "1 / 2 < d" | "d = 1 / 2" by linarith
  then show thesis
  proof cases
    case 1
    then have "rne y = \<lfloor>y\<rfloor>" "d \<le> 1 / 2" unfolding r by simp_all
    then show ?thesis using lower unfolding d_def by blast
  next
    case 2
    then have "rne y = \<lfloor>y\<rfloor> + 1" "1 / 2 \<le> d" unfolding r by simp_all
    then show ?thesis using upper unfolding d_def by blast
  next
    case 3
    then have "rne y = \<lfloor>y\<rfloor> \<or> rne y = \<lfloor>y\<rfloor> + 1" "d \<le> 1 / 2" "1 / 2 \<le> d"
      unfolding r by simp_all
    then show ?thesis using lower upper unfolding d_def by blast
  qed
qed

lemma floor_bounds: "of_int \<lfloor>y\<rfloor> \<le> y" "y < of_int \<lfloor>y\<rfloor> + 1" for y :: real
  by linarith+

lemma rne_error: "\<bar>of_int (rne y) - y\<bar> \<le> 1 / 2"
proof (cases y rule: rne_cases)
  case lower
  have "of_int (rne y) = (of_int \<lfloor>y\<rfloor> :: real)" using lower(1) by simp
  then show ?thesis using lower(2) floor_bounds[of y] by linarith
next
  case upper
  have "of_int (rne y) = (of_int \<lfloor>y\<rfloor> :: real) + 1" using upper(1) by simp
  then show ?thesis using upper(2) floor_bounds[of y] by linarith
qed

lemma rne_mono_le: "y \<le> of_int b \<Longrightarrow> rne y \<le> b"
proof -
  assume le: "y \<le> of_int b"
  have "y < of_int b + 1" using le by linarith
  then have fb: "\<lfloor>y\<rfloor> \<le> b" by (simp add: floor_le_iff)
  show ?thesis
  proof (cases y rule: rne_cases)
    case lower
    then show ?thesis using fb by simp
  next
    case upper
    have "\<lfloor>y\<rfloor> \<noteq> b"
    proof
      assume "\<lfloor>y\<rfloor> = b"
      then have "y - of_int b \<ge> 1 / 2" using upper by simp
      then show False using le by linarith
    qed
    then show ?thesis using upper(1) fb by linarith
  qed
qed

lemma rne_mono_ge: "of_int a \<le> y \<Longrightarrow> a \<le> rne y"
proof -
  assume le: "of_int a \<le> y"
  have "a \<le> \<lfloor>y\<rfloor>" using le by (simp add: le_floor_iff)
  then show ?thesis by (cases y rule: rne_cases) linarith+
qed

lemma rne_abs_le: "\<bar>y\<bar> \<le> of_int b \<Longrightarrow> \<bar>rne y\<bar> \<le> b"
proof -
  assume a: "\<bar>y\<bar> \<le> of_int b"
  have "of_int (- b) = - (of_int b :: real)" by simp
  then have "y \<le> of_int b" "of_int (- b) \<le> y" using a by linarith+
  then have "rne y \<le> b" "- b \<le> rne y" by (auto intro: rne_mono_le rne_mono_ge)
  then show ?thesis by linarith
qed

lemma rne_minus: "rne (- y) = - rne y"
proof (cases "y = of_int \<lfloor>y\<rfloor>")
  case True
  then obtain m where "y = of_int m" ..
  then show ?thesis using rne_int[of "- m"] by simp
next
  case False
  have lt: "of_int \<lfloor>y\<rfloor> < y" using False floor_bounds(1)[of y] by linarith
  have fl: "\<lfloor>- y\<rfloor> = - \<lfloor>y\<rfloor> - 1"
  proof (rule floor_unique)
    have e: "of_int (- \<lfloor>y\<rfloor> - 1) = - of_int \<lfloor>y\<rfloor> - (1 :: real)" by simp
    show "of_int (- \<lfloor>y\<rfloor> - 1) \<le> - y" using floor_bounds(2)[of y] unfolding e by linarith
    show "- y < of_int (- \<lfloor>y\<rfloor> - 1) + 1" using lt unfolding e by linarith
  qed
  define d where "d = y - of_int \<lfloor>y\<rfloor>"
  have d: "- y - of_int (- \<lfloor>y\<rfloor> - 1) = 1 - d" unfolding d_def by simp
  have r1: "rne y = (if d < 1 / 2 then \<lfloor>y\<rfloor> else if 1 / 2 < d then \<lfloor>y\<rfloor> + 1
                    else if even \<lfloor>y\<rfloor> then \<lfloor>y\<rfloor> else \<lfloor>y\<rfloor> + 1)"
    unfolding rne_def Let_def d_def ..
  have r2: "rne (- y) = (if 1 - d < 1 / 2 then - \<lfloor>y\<rfloor> - 1 else if 1 / 2 < 1 - d then - \<lfloor>y\<rfloor> - 1 + 1
                    else if even (- \<lfloor>y\<rfloor> - 1) then - \<lfloor>y\<rfloor> - 1 else - \<lfloor>y\<rfloor> - 1 + 1)"
    unfolding rne_def Let_def fl d ..
  consider "d < 1 / 2" | "1 / 2 < d" | "d = 1 / 2" by linarith
  then show ?thesis
    unfolding r1 r2 by cases auto
qed

lemma round_up_fixed:
  "j \<le> k \<Longrightarrow> x * 2 ^ j = of_int m \<Longrightarrow> \<bar>x\<bar> * 2 ^ j \<le> 2 ^ 24 \<Longrightarrow> round_up k x = x"
proof (induction k arbitrary: x j m)
  case 0
  then have "x = of_int m" by simp
  then show ?case by simp
next
  case (Suc k)
  show ?case
  proof (cases "\<bar>x\<bar> < 2 ^ 23")
    case True
    have "round_up k (2 * x) = 2 * x"
    proof (cases j)
      case 0
      then have x: "x = of_int m" using Suc.prems(2) by simp
      have "(2 * x) * 2 ^ 0 = of_int (2 * m)" using x by simp
      moreover have "\<bar>2 * x\<bar> * 2 ^ 0 \<le> 2 ^ 24" using True by simp
      ultimately show ?thesis by (intro Suc.IH[of 0 _ "2 * m"]) simp_all
    next
      case j: (Suc i)
      have "(2 * x) * 2 ^ i = of_int m" using Suc.prems(2) j by (simp add: mult_ac)
      moreover have "\<bar>2 * x\<bar> * 2 ^ i = \<bar>x\<bar> * 2 ^ j" unfolding j by (simp add: abs_mult)
      then have "\<bar>2 * x\<bar> * 2 ^ i \<le> 2 ^ 24" using Suc.prems(3) by simp
      moreover have "i \<le> k" using Suc.prems(1) j by simp
      ultimately show ?thesis by (intro Suc.IH[of i _ m])
    qed
    then show ?thesis using True by simp
  next
    case False
    have "\<exists>n. x = of_int n"
    proof (cases j)
      case 0
      then show ?thesis using Suc.prems(2) by auto
    next
      case ji: (Suc i)
      have "2 ^ 23 * 2 ^ j \<le> \<bar>x\<bar> * (2 ^ j :: real)"
        using False by (intro mult_right_mono) simp_all
      then have "2 ^ 23 * 2 ^ j \<le> (2 ^ 24 :: real)" using Suc.prems(3) by linarith
      then have "(2 :: real) ^ j \<le> 2 ^ 1" by simp
      then have "j \<le> 1" by (simp only: power_increasing_iff[of 2] one_less_numeral_iff semiring_norm)
      then have j: "j = 1" using ji by simp
      then have "\<bar>x\<bar> = 2 ^ 23" using Suc.prems(3) False by simp
      then have "x = of_int (2 ^ 23) \<or> x = of_int (- (2 ^ 23))" by (auto simp: abs_if split: if_splits)
      then show ?thesis by blast
    qed
    then obtain n where "x = of_int n" ..
    then show ?thesis using False by simp
  qed
qed

lemma round_up_range:
  "\<bar>x\<bar> < 2 ^ 24 \<Longrightarrow> \<exists>j m. j \<le> k \<and> round_up k x * 2 ^ j = of_int m \<and> \<bar>m\<bar> \<le> 2 ^ 24"
proof (induction k arbitrary: x)
  case 0
  have "\<bar>x\<bar> \<le> of_int (2 ^ 24)" using 0 by simp
  then have "\<bar>rne x\<bar> \<le> 2 ^ 24" by (rule rne_abs_le)
  then show ?case by (intro exI[of _ 0] exI[of _ "rne x"]) simp
next
  case (Suc k)
  show ?case
  proof (cases "\<bar>x\<bar> < 2 ^ 23")
    case True
    then have "\<bar>2 * x\<bar> < 2 ^ 24" by simp
    from Suc.IH[OF this] obtain j m where
      "j \<le> k" "round_up k (2 * x) * 2 ^ j = of_int m" "\<bar>m\<bar> \<le> 2 ^ 24" by blast
    then show ?thesis using True
      by (intro exI[of _ "Suc j"] exI[of _ m]) simp
  next
    case False
    have "\<bar>x\<bar> \<le> of_int (2 ^ 24)" using Suc.prems by simp
    then have "\<bar>rne x\<bar> \<le> 2 ^ 24" by (rule rne_abs_le)
    then show ?thesis using False by (intro exI[of _ 0] exI[of _ "rne x"]) simp
  qed
qed

lemma round_up_error:
  "\<bar>round_up k x - x\<bar> \<le> max (\<bar>x\<bar> / 2 ^ 24) (1 / 2 ^ Suc k)"
proof (induction k arbitrary: x)
  case 0
  have "\<bar>of_int (rne x) - x\<bar> \<le> 1 / 2" by (rule rne_error)
  also have "\<dots> \<le> max (\<bar>x\<bar> / 2 ^ 24) (1 / 2 ^ Suc 0)" by simp
  finally show ?case by simp
next
  case (Suc k)
  show ?case
  proof (cases "\<bar>x\<bar> < 2 ^ 23")
    case True
    have "round_up k (2 * x) / 2 - x = (round_up k (2 * x) - 2 * x) / 2" by simp
    then have "\<bar>round_up k (2 * x) / 2 - x\<bar> = \<bar>round_up k (2 * x) - 2 * x\<bar> / 2"
      by (simp only: abs_divide abs_numeral)
    also have "\<dots> \<le> max (\<bar>2 * x\<bar> / 2 ^ 24) (1 / 2 ^ Suc k) / 2"
      using Suc.IH[of "2 * x"] by (simp only: divide_right_mono zero_le_numeral)
    also have "\<dots> = max (\<bar>2 * x\<bar> / 2 ^ 24 / 2) (1 / 2 ^ Suc k / 2)"
      by (simp only: max_def divide_le_cancel) simp
    also have "\<dots> = max (\<bar>x\<bar> / 2 ^ 24) (1 / 2 ^ Suc (Suc k))"
      by (simp add: abs_mult)
    finally show ?thesis using True by simp
  next
    case False
    have "\<bar>of_int (rne x) - x\<bar> \<le> 1 / 2" by (rule rne_error)
    also have "\<dots> \<le> \<bar>x\<bar> / 2 ^ 24" using False by simp
    also have "\<dots> \<le> max (\<bar>x\<bar> / 2 ^ 24) (1 / 2 ^ Suc (Suc k))" by simp
    finally show ?thesis using False by simp
  qed
qed

lemma round_up_minus: "round_up k (- x) = - round_up k x"
  by (induction k arbitrary: x) (simp_all add: rne_minus)

lemma round_down_fixed:
  "x = of_int m * 2 ^ j \<Longrightarrow> j \<le> k \<Longrightarrow> \<bar>m\<bar> \<le> 2 ^ 24 \<or> j = k \<Longrightarrow> round_down k x = x"
proof (induction k arbitrary: x j m)
  case 0
  then have "x = of_int m" by simp
  then show ?case by simp
next
  case (Suc k)
  have int: "\<exists>n. x = of_int n"
    by (rule exI[of _ "m * 2 ^ j"]) (simp add: Suc.prems(1))
  show ?case
  proof (cases "2 ^ 24 \<le> \<bar>x\<bar>")
    case True
    have "round_down k (x / 2) = x / 2"
    proof (cases j)
      case 0
      then have x: "x = of_int m" and m: "\<bar>m\<bar> \<le> 2 ^ 24" using Suc.prems by simp_all
      have "\<bar>of_int m :: real\<bar> = of_int \<bar>m\<bar>" by simp
      then have "(of_int (2 ^ 24) :: real) \<le> of_int \<bar>m\<bar>" using True x by simp
      then have "2 ^ 24 \<le> \<bar>m\<bar>" by (simp only: of_int_le_iff)
      then have "m = 2 ^ 24 \<or> m = - (2 ^ 24)" using m by linarith
      then have "x / 2 = of_int (m div 2) * 2 ^ 0 \<and> \<bar>m div 2\<bar> \<le> 2 ^ 24" using x by auto
      then show ?thesis by (intro Suc.IH[of _ "m div 2" 0]) simp_all
    next
      case j: (Suc i)
      have "x / 2 = of_int m * 2 ^ i" using Suc.prems(1) j by simp
      moreover have "i \<le> k" using Suc.prems(2) j by simp
      moreover have "\<bar>m\<bar> \<le> 2 ^ 24 \<or> i = k" using Suc.prems(3) j by auto
      ultimately show ?thesis by (rule Suc.IH)
    qed
    then show ?thesis using True by simp
  next
    case False
    then show ?thesis using int by auto
  qed
qed

lemma round_down_range:
  "\<exists>j m. round_down k x = of_int m * 2 ^ j \<and> j \<le> k \<and> (\<bar>m\<bar> \<le> 2 ^ 24 \<or> j = k)"
proof (induction k arbitrary: x)
  case 0
  show ?case by (intro exI[of _ 0] exI[of _ "rne x"]) simp
next
  case (Suc k)
  show ?case
  proof (cases "2 ^ 24 \<le> \<bar>x\<bar>")
    case True
    from Suc.IH[of "x / 2"] obtain j m where
      "round_down k (x / 2) = of_int m * 2 ^ j" "j \<le> k" "\<bar>m\<bar> \<le> 2 ^ 24 \<or> j = k" by blast
    then show ?thesis using True
      by (intro exI[of _ "Suc j"] exI[of _ m]) auto
  next
    case False
    then have "\<bar>x\<bar> \<le> of_int (2 ^ 24)" by simp
    then have "\<bar>rne x\<bar> \<le> 2 ^ 24" by (rule rne_abs_le)
    then show ?thesis using False by (intro exI[of _ 0] exI[of _ "rne x"]) simp
  qed
qed

lemma round_down_error:
  "2 ^ 23 \<le> \<bar>x\<bar> \<Longrightarrow> \<bar>round_down k x - x\<bar> \<le> \<bar>x\<bar> / 2 ^ 24"
proof (induction k arbitrary: x)
  case 0
  have "\<bar>of_int (rne x) - x\<bar> \<le> 1 / 2" by (rule rne_error)
  also have "\<dots> \<le> \<bar>x\<bar> / 2 ^ 24" using 0 by simp
  finally show ?case by simp
next
  case (Suc k)
  show ?case
  proof (cases "2 ^ 24 \<le> \<bar>x\<bar>")
    case True
    then have "2 ^ 23 \<le> \<bar>x / 2\<bar>" by simp
    from Suc.IH[OF this] have "\<bar>round_down k (x / 2) - x / 2\<bar> \<le> \<bar>x / 2\<bar> / 2 ^ 24" .
    moreover have "2 * round_down k (x / 2) - x = 2 * (round_down k (x / 2) - x / 2)" by simp
    then have "\<bar>2 * round_down k (x / 2) - x\<bar> = 2 * \<bar>round_down k (x / 2) - x / 2\<bar>"
      by (simp only: abs_mult abs_numeral)
    ultimately have "\<bar>2 * round_down k (x / 2) - x\<bar> \<le> \<bar>x\<bar> / 2 ^ 24" by simp
    then show ?thesis using True by simp
  next
    case False
    have "\<bar>of_int (rne x) - x\<bar> \<le> 1 / 2" by (rule rne_error)
    also have "\<dots> \<le> \<bar>x\<bar> / 2 ^ 24" using Suc.prems by simp
    finally show ?thesis using False by simp
  qed
qed

lemma round_down_minus: "round_down k (- x) = - round_down k x"
  by (induction k arbitrary: x) (simp_all add: rne_minus)

lemma binary32_minus: "binary32 (- x) = - binary32 x"
  by (simp add: binary32_def round_up_minus round_down_minus)

lemma binary32_zero [simp]: "binary32 0 = 0"
  by (simp add: binary32_def)

lemma binary32_error: "\<bar>binary32 x - x\<bar> \<le> max (\<bar>x\<bar> / 2 ^ 24) (1 / 2 ^ 150)"
proof (cases "x = 0 \<or> \<bar>x\<bar> < 2 ^ 24")
  case True
  then show ?thesis using round_up_error[of 149 x] by (auto simp: binary32_def)
next
  case False
  then have "2 ^ 23 \<le> \<bar>x\<bar>" by simp
  from round_down_error[OF this, of 104] have "\<bar>round_down 104 x - x\<bar> \<le> \<bar>x\<bar> / 2 ^ 24" .
  also have "\<dots> \<le> max (\<bar>x\<bar> / 2 ^ 24) (1 / 2 ^ 150)" by simp
  finally show ?thesis using False by (simp add: binary32_def)
qed

lemma binary32_fixed_int:
  "\<bar>m\<bar> \<le> 2 ^ 24 \<Longrightarrow> binary32 (of_int m) = of_int m"
proof -
  assume m: "\<bar>m\<bar> \<le> 2 ^ 24"
  have a: "\<bar>of_int m :: real\<bar> = of_int \<bar>m\<bar>" by simp
  have le: "\<bar>of_int m :: real\<bar> \<le> 2 ^ 24" unfolding a using m by (metis of_int_le_iff of_int_numeral of_int_power)
  show ?thesis
  proof (cases "\<bar>of_int m :: real\<bar> < 2 ^ 24")
    case True
    have "round_up 149 (of_int m) = of_int m"
      by (rule round_up_fixed[of 0 _ _ m]) (use le in simp_all)
    then show ?thesis using True by (simp add: binary32_def)
  next
    case False
    have "round_down 104 (of_int m) = of_int m"
      by (rule round_down_fixed[of _ m 0]) (use m in simp_all)
    then show ?thesis using False by (simp add: binary32_def)
  qed
qed

lemma binary32_idem: "binary32 (binary32 x) = binary32 x"
proof -
  consider "x = 0" | "x \<noteq> 0" "\<bar>x\<bar> < 2 ^ 24" | "x \<noteq> 0" "\<not> \<bar>x\<bar> < 2 ^ 24" by blast
  then show ?thesis
  proof cases
    case 1
    then show ?thesis by simp
  next
    case 2
    define y where "y = round_up 149 x"
    have bx: "binary32 x = y" using 2 by (simp add: binary32_def y_def)
    from round_up_range[OF 2(2), of 149] obtain j m where
      j: "j \<le> 149" and ym: "y * 2 ^ j = of_int m" and m: "\<bar>m\<bar> \<le> 2 ^ 24"
      unfolding y_def by blast
    have am: "\<bar>y\<bar> * 2 ^ j \<le> 2 ^ 24"
    proof -
      have "\<bar>y\<bar> * 2 ^ j = \<bar>y * 2 ^ j\<bar>" by (simp add: abs_mult)
      also have "\<dots> = of_int \<bar>m\<bar>" unfolding ym by simp
      also have "\<dots> \<le> 2 ^ 24" using m by (metis of_int_le_iff of_int_numeral of_int_power)
      finally show ?thesis .
    qed
    have "binary32 y = y"
    proof (cases "\<bar>y\<bar> < 2 ^ 24")
      case True
      have "round_up 149 y = y" by (rule round_up_fixed[OF j ym am])
      then show ?thesis using True by (simp add: binary32_def)
    next
      case False
      have "(2 :: real) ^ 24 * 2 ^ j \<le> \<bar>y\<bar> * 2 ^ j"
        using False by (intro mult_right_mono) simp_all
      then have "(2 :: real) ^ 24 * 2 ^ j \<le> 2 ^ 24 * 1" using am by linarith
      then have "(2 :: real) ^ j \<le> 1" by (simp only: mult_le_cancel_left_pos zero_less_power zero_less_numeral)
      then have "(2 :: real) ^ j \<le> 2 ^ 0" by simp
      then have "j \<le> 0" by (simp only: power_increasing_iff[of 2] one_less_numeral_iff semiring_norm)
      then have "j = 0" by simp
      then have "y = of_int m" using ym by simp
      then show ?thesis using binary32_fixed_int[OF m] by simp
    qed
    then show ?thesis unfolding bx .
  next
    case 3
    define y where "y = round_down 104 x"
    have bx: "binary32 x = y" using 3 by (simp add: binary32_def y_def)
    from round_down_range[of 104 x] obtain j m where
      ym: "y = of_int m * 2 ^ j" and j: "j \<le> 104" and m: "\<bar>m\<bar> \<le> 2 ^ 24 \<or> j = 104"
      unfolding y_def by blast
    have "binary32 y = y"
    proof (cases "y = 0 \<or> \<bar>y\<bar> < 2 ^ 24")
      case True
      have yi: "y = of_int (m * 2 ^ j)" unfolding ym by simp
      have "\<bar>m * 2 ^ j\<bar> \<le> 2 ^ 24"
      proof -
        have "of_int \<bar>m * 2 ^ j\<bar> = \<bar>y\<bar>" unfolding yi by simp
        also have "\<dots> \<le> 2 ^ 24" using True by auto
        finally have "(of_int \<bar>m * 2 ^ j\<bar> :: real) \<le> of_int (2 ^ 24)" by simp
        then show ?thesis by (simp only: of_int_le_iff)
      qed
      from binary32_fixed_int[OF this] show ?thesis unfolding yi .
    next
      case False
      have "round_down 104 y = y" by (rule round_down_fixed[OF ym j m])
      then show ?thesis using False by (simp add: binary32_def)
    qed
    then show ?thesis unfolding bx .
  qed
qed

lemma binary32_tiny: "binary32 (1 / 2 ^ 150) = 0"
  by (simp add: b32_eval)

lemma fdiv_small:
  assumes "\<bar>w\<bar> < 2 / 2 ^ 149"
  shows "fdiv (fdiv w 2) 2 = 0"
proof (cases "w = 0")
  case True
  then show ?thesis by (simp add: fdiv_def)
next
  case False
  define x where "x = w / 2"
  have x: "x \<noteq> 0" "\<bar>x\<bar> < 1 / 2 ^ 149" using False assms by (simp_all add: x_def)
  then have x24: "\<bar>x\<bar> < 2 ^ 24"
    by (smt (verit) divide_le_eq_1_pos one_le_power zero_less_power)
  define m where "m = rne (2 ^ 149 * x)"
  have "\<bar>x\<bar> * 2 ^ 149 \<le> 1" using x(2) by (simp add: field_simps)
  then have le: "\<bar>x\<bar> * 2 ^ 149 \<le> 2 ^ 23" by simp
  have "round_up 149 x = round_up (149 - 149) (2 ^ 149 * x) / 2 ^ 149"
    by (rule round_up_jump[OF _ le]) simp
  then have y: "binary32 x = of_int m / 2 ^ 149"
    using x x24 by (simp add: binary32_def m_def)
  have "\<bar>2 ^ 149 * x\<bar> \<le> of_int 1"
    using \<open>\<bar>x\<bar> * 2 ^ 149 \<le> 1\<close> by (simp add: abs_mult mult.commute)
  then have "\<bar>m\<bar> \<le> 1" unfolding m_def by (rule rne_abs_le)
  then consider "m = 0" | "m = 1" | "m = - 1" by linarith
  then have "binary32 (of_int m / 2 ^ 149 / 2) = 0"
  proof cases
    case 1
    then show ?thesis by simp
  next
    case 2
    then show ?thesis using binary32_tiny by simp
  next
    case 3
    then show ?thesis using binary32_minus[of "1 / 2 ^ 150"] binary32_tiny by simp
  qed
  then show ?thesis unfolding fdiv_def x_def[symmetric] y .
qed

lemma fdiv_decrease:
  assumes "2 / 2 ^ 149 \<le> \<bar>w\<bar>"
  shows "\<bar>fdiv w 2\<bar> \<le> 3 / 4 * \<bar>w\<bar>"
proof -
  have "\<bar>binary32 (w / 2) - w / 2\<bar> \<le> max (\<bar>w / 2\<bar> / 2 ^ 24) (1 / 2 ^ 150)"
    by (rule binary32_error)
  also have "\<dots> \<le> \<bar>w\<bar> / 4"
  proof (rule max.boundedI)
    have "\<bar>w / 2\<bar> / 2 ^ 24 = \<bar>w\<bar> / 2 ^ 25" by simp
    also have "\<dots> \<le> \<bar>w\<bar> / 4" by (intro divide_left_mono) simp_all
    finally show "\<bar>w / 2\<bar> / 2 ^ 24 \<le> \<bar>w\<bar> / 4" .
    have "(1 :: real) / 2 ^ 150 = 2 / 2 ^ 149 / 4" by simp
    also have "\<dots> \<le> \<bar>w\<bar> / 4" using assms by (intro divide_right_mono) simp_all
    finally show "1 / 2 ^ 150 \<le> \<bar>w\<bar> / 4" .
  qed
  finally have "\<bar>binary32 (w / 2) - w / 2\<bar> \<le> \<bar>w\<bar> / 4" .
  moreover have "\<bar>w / 2\<bar> = \<bar>w\<bar> / 2" by simp
  ultimately show ?thesis unfolding fdiv_def by linarith
qed

lemma halving_bounded:
  "\<bar>w\<bar> < (4 / 3) ^ n * (2 / 2 ^ 149) \<Longrightarrow> \<exists>k. ((\<lambda>w. fdiv w 2) ^^ k) w = 0"
proof (induction n arbitrary: w)
  case 0
  then have "fdiv (fdiv w 2) 2 = 0" by (intro fdiv_small) simp
  then have "((\<lambda>w. fdiv w 2) ^^ 2) w = 0" by (simp add: numeral_2_eq_2)
  then show ?case by blast
next
  case (Suc n)
  show ?case
  proof (cases "\<bar>w\<bar> < 2 / 2 ^ 149")
    case True
    then have "fdiv (fdiv w 2) 2 = 0" by (rule fdiv_small)
    then have "((\<lambda>w. fdiv w 2) ^^ 2) w = 0" by (simp add: numeral_2_eq_2)
    then show ?thesis by blast
  next
    case False
    then have "\<bar>fdiv w 2\<bar> \<le> 3 / 4 * \<bar>w\<bar>" by (intro fdiv_decrease) simp
    also have "\<dots> < 3 / 4 * ((4 / 3) ^ Suc n * (2 / 2 ^ 149))"
      using Suc.prems by (intro mult_strict_left_mono) simp_all
    also have "\<dots> = (4 / 3) ^ n * (2 / 2 ^ 149)" by simp
    finally obtain k where "((\<lambda>w. fdiv w 2) ^^ k) (fdiv w 2) = 0"
      using Suc.IH by blast
    then have "((\<lambda>w. fdiv w 2) ^^ Suc k) w = 0" by (simp only: funpow_Suc_right o_apply)
    then show ?thesis by blast
  qed
qed

lemma halving_reaches_zero: "\<exists>k. ((\<lambda>w. fdiv w 2) ^^ k) w = 0"
proof -
  obtain n where "\<bar>w\<bar> / (2 / 2 ^ 149) < (4 / 3) ^ n"
    using real_arch_pow[of "4 / 3" "\<bar>w\<bar> / (2 / 2 ^ 149)"] by auto
  then have "\<bar>w\<bar> < (4 / 3) ^ n * (2 / 2 ^ 149)"
    by (simp add: pos_divide_less_eq)
  then show ?thesis by (rule halving_bounded)
qed

lemma round_up_nonneg: "0 \<le> x \<Longrightarrow> 0 \<le> round_up k x"
proof (induction k arbitrary: x)
  case 0
  have "0 \<le> rne x" by (rule rne_mono_ge) (use 0 in simp)
  then show ?case by simp
next
  case (Suc k)
  have "0 \<le> rne x" by (rule rne_mono_ge) (use Suc.prems in simp)
  moreover have "0 \<le> round_up k (2 * x)" by (rule Suc.IH) (use Suc.prems in simp)
  ultimately show ?case by simp
qed

lemma round_down_nonneg: "0 \<le> x \<Longrightarrow> 0 \<le> round_down k x"
proof (induction k arbitrary: x)
  case 0
  have "0 \<le> rne x" by (rule rne_mono_ge) (use 0 in simp)
  then show ?case by simp
next
  case (Suc k)
  have "0 \<le> rne x" by (rule rne_mono_ge) (use Suc.prems in simp)
  moreover have "0 \<le> round_down k (x / 2)" by (rule Suc.IH) (use Suc.prems in simp)
  ultimately show ?case by simp
qed

lemma binary32_nonneg: "0 \<le> x \<Longrightarrow> 0 \<le> binary32 x"
  by (simp add: binary32_def round_up_nonneg round_down_nonneg)

lemma binary32_pos: 
  assumes "1 \<le> x"
  shows "0 < binary32 x"
proof -
  have "\<bar>binary32 x - x\<bar> \<le> max (\<bar>x\<bar> / 2 ^ 24) (1 / 2 ^ 150)" by (rule binary32_error)
  also have "\<dots> \<le> x / 2"
  proof (rule max.boundedI)
    have "\<bar>x\<bar> / 2 ^ 24 = x / 2 ^ 24" using assms by simp
    also have "\<dots> \<le> x / 2" using assms by (intro divide_left_mono) simp_all
    finally show "\<bar>x\<bar> / 2 ^ 24 \<le> x / 2" .
    have "(1 :: real) / 2 ^ 150 \<le> 1 / 2" by (intro divide_left_mono) simp_all
    then show "1 / 2 ^ 150 \<le> x / 2" using assms by linarith
  qed
  finally show ?thesis using assms by linarith
qed

lemma fsub_swap: "fsub a b = - fsub b a"
  using binary32_minus[of "b - a"] by (simp add: fsub_def)

section \<open>Termination of the insertion in binary32\<close>

text \<open>
  Every subdivision halves the width of the cell. In binary32 the halved width reaches 0
  after finitely many steps, and a cell of width 0 contains no position: there the
  recursion ends, whatever the points are.
\<close>

lemma is_binary32_round [simp]: "is_binary32 (binary32 x)"
  by (simp add: is_binary32_def binary32_idem)

lemma float_rect_quadrants:
  "float_rect b \<Longrightarrow> b' \<in> set (quadrants_b32 b) \<Longrightarrow> float_rect b' \<and> width b' = fdiv (width b) 2"
  by (auto simp: float_rect_def quadrants_b32_def Let_def fadd_def fdiv_def)

lemma contains_b32_zero_width:
  "float_rect b \<Longrightarrow> width b = 0 \<Longrightarrow> \<not> contains_b32 b v"
  by (simp add: contains_b32_def float_rect_def is_binary32_def fadd_def Let_def)

lemma insert_b32_init:
  "quad_node_insert_b32 (Suc n) (quad_node_init b) p
   = Some (if contains_b32 b (position p) then Quad_node 0 (Vector2f 0 0) b (Some p) []
           else quad_node_init b)"
  by (simp add: quad_node_init_def quad_node_is_leaf_def)

lemma insert_b32_fuel_mono:
  "quad_node_insert_b32 n node p = Some node' \<Longrightarrow> n \<le> m
   \<Longrightarrow> quad_node_insert_b32 m node p = Some node'"
proof (induction n arbitrary: node node' m p)
  case 0
  then show ?case by simp
next
  case (Suc n)
  obtain k where m: "m = Suc k" and nk: "n \<le> k"
    using Suc.prems(2) by (cases m) auto
  have step: "for_children (\<lambda>child. quad_node_insert_b32 n child q) cs = Some cs'
          \<Longrightarrow> for_children (\<lambda>child. quad_node_insert_b32 k child q) cs = Some cs'" for q cs cs'
    unfolding for_children_Some_iff
    by (erule list_all2_mono) (use Suc.IH nk in blast)
  obtain tm com b pt cs where node: "node = Quad_node tm com b pt cs" by (cases node)
  show ?case
    using Suc.prems(1) unfolding m node
    by (auto split: if_splits option.splits Option.bind_splits dest!: step)
qed

lemma children_common_fuel_b32:
  "(\<And>c. c \<in> set cs \<Longrightarrow> \<exists>n t. quad_node_insert_b32 n c p = Some t) \<Longrightarrow>
     \<exists>N. \<forall>c\<in>set cs. \<exists>t. quad_node_insert_b32 N c p = Some t"
proof (induction cs)
  case Nil
  then show ?case by simp
next
  case (Cons c cs)
  obtain n t where n: "quad_node_insert_b32 n c p = Some t" using Cons.prems[of c] by auto
  obtain N where N: "\<forall>c\<in>set cs. \<exists>t. quad_node_insert_b32 N c p = Some t"
    using Cons by auto
  have "\<exists>t. quad_node_insert_b32 (max n N) c' p = Some t" if mem: "c' \<in> set (c # cs)" for c'
  proof (cases "c' = c")
    case True
    then show ?thesis using insert_b32_fuel_mono[OF n, of "max n N"] by simp
  next
    case False
    then obtain t' where "quad_node_insert_b32 N c' p = Some t'" using mem N by auto
    from insert_b32_fuel_mono[OF this, of "max n N"] show ?thesis by simp
  qed
  then show ?case by blast
qed

lemma leaf_insert_b32:
  "((\<lambda>w. fdiv w 2) ^^ k) (width b) = 0 \<Longrightarrow> float_rect b
   \<Longrightarrow> \<exists>t. quad_node_insert_b32 (Suc k) (Quad_node tm com b pt []) p = Some t"
proof (induction k arbitrary: b tm com pt)
  case 0
  then have "\<not> contains_b32 b (position p)" by (intro contains_b32_zero_width) simp_all
  then show ?case by simp
next
  case (Suc k)
  show ?case
  proof (cases "contains_b32 b (position p)")
    case False
    then show ?thesis by simp
  next
    case True
    show ?thesis
    proof (cases pt)
      case None
      then show ?thesis using True by (simp add: quad_node_is_leaf_def)
    next
      case (Some q)
      let ?g = "\<lambda>c. if contains_b32 (boundary c) (position q)
                     then Quad_node 0 (Vector2f 0 0) (boundary c) (Some q) [] else c"
      let ?cs0 = "map quad_node_init (quadrants_b32 b)"
      have cs1: "for_children (\<lambda>child. quad_node_insert_b32 (Suc k) child q) ?cs0
                 = Some (map ?g ?cs0)"
        by (rule for_children_map) (auto simp: insert_b32_init boundary_init)
      have "\<exists>cs2. for_children (\<lambda>child. quad_node_insert_b32 (Suc k) child p) (map ?g ?cs0)
                   = Some cs2"
      proof (rule for_children_total)
        fix c assume "c \<in> set (map ?g ?cs0)"
        then obtain b' where b': "b' \<in> set (quadrants_b32 b)"
          and c: "c = Quad_node 0 (Vector2f 0 0) b'
                        (if contains_b32 b' (position q) then Some q else None) []"
          by (auto simp: boundary_init quad_node_init_def)
        have fr: "float_rect b'" and w: "width b' = fdiv (width b) 2"
          using float_rect_quadrants[OF Suc.prems(2) b'] by simp_all
        have "((\<lambda>w. fdiv w 2) ^^ k) (width b') = 0"
          using Suc.prems(1) unfolding w by (simp only: funpow_Suc_right o_apply)
        from Suc.IH[OF this fr] show "\<exists>c'. quad_node_insert_b32 (Suc k) c p = Some c'"
          unfolding c by blast
      qed
      then obtain cs2 where
        cs2: "for_children (\<lambda>child. quad_node_insert_b32 (Suc k) child p) (map ?g ?cs0)
              = Some cs2"
        by blast
      show ?thesis
        using True Some cs1 cs2 by (simp add: quad_node_is_leaf_def quad_node_subdivide_b32_def)
    qed
  qed
qed

lemma insert_b32_terminates:
  "float_bounds node \<Longrightarrow> \<exists>n t. quad_node_insert_b32 n node p = Some t"
proof (induction node)
  case (Quad_node tm com b pt cs)
  show ?case
  proof (cases "cs = []")
    case True
    obtain k where "((\<lambda>w. fdiv w 2) ^^ k) (width b) = 0"
      using halving_reaches_zero by blast
    moreover have "float_rect b" using Quad_node.prems by simp
    ultimately show ?thesis
      using leaf_insert_b32[of _ b tm com pt p] unfolding True by blast
  next
    case internal: False
    have "\<And>c. c \<in> set cs \<Longrightarrow> \<exists>n t. quad_node_insert_b32 n c p = Some t"
      using Quad_node.IH Quad_node.prems by (auto simp: list_all_iff)
    from children_common_fuel_b32[OF this] obtain N where
      N: "\<forall>c\<in>set cs. \<exists>t. quad_node_insert_b32 N c p = Some t" by blast
    obtain cs2 where "for_children (\<lambda>child. quad_node_insert_b32 N child p) cs = Some cs2"
      using for_children_total[of cs "\<lambda>child. quad_node_insert_b32 N child p"] N by blast
    then have "\<exists>t. quad_node_insert_b32 (Suc N) (Quad_node tm com b pt cs) p = Some t"
      using internal by (simp add: quad_node_is_leaf_def)
    then show ?thesis by blast
  qed
qed

lemma list_all2_preserves:
  "list_all2 (\<lambda>c c'. f c = Some c') cs cs' \<Longrightarrow> list_all P cs
   \<Longrightarrow> (\<And>c c'. P c \<Longrightarrow> f c = Some c' \<Longrightarrow> Q c') \<Longrightarrow> list_all Q cs'"
  by (induction rule: list_all2_induct) auto

lemma float_bounds_init [simp]: "float_bounds (quad_node_init b) = float_rect b"
  by (simp add: quad_node_init_def)




text \<open>The rectangle of \<^verbatim>\<open>main\<close> has binary32 fields.\<close>

lemma float_rect_world: "float_rect world_boundary"
  by (simp add: float_rect_def is_binary32_def world_boundary_def b32_eval)

section \<open>Stored points and total mass in binary32\<close>

lemma unaggregated_init [simp]: "unaggregated (quad_node_init b)"
  by (simp add: quad_node_init_def)

lemma insert_b32_unaggregated:
  "quad_node_insert_b32 n node p = Some t \<Longrightarrow> unaggregated node \<Longrightarrow> unaggregated t"
proof (induction n arbitrary: node t p)
  case 0
  then show ?case by simp
next
  case (Suc n)
  obtain tm com b pt cs where node: "node = Quad_node tm com b pt cs" by (cases node)
  have fb: "tm = 0" "list_all unaggregated cs" using Suc.prems(2) node by simp_all
  have step: "list_all unaggregated ds'"
    if "for_children (\<lambda>child. quad_node_insert_b32 n child q) ds = Some ds'"
      and "list_all unaggregated ds" for q ds ds'
    using that(1) unfolding for_children_Some_iff
    by (rule list_all2_preserves[OF _ that(2)]) (blast intro: Suc.IH)
  have q0: "list_all unaggregated (map quad_node_init (quadrants_b32 b))"
    by (auto simp: list_all_iff)
  show ?case
    using Suc.prems(1) fb q0 unfolding node
    by (auto simp: quad_node_is_leaf_def quad_node_subdivide_b32_def
             split: if_splits option.splits Option.bind_splits dest: step)
qed

lemma insert_points_b32_unaggregated:
  "insert_points_b32 n node ps = Some t \<Longrightarrow> unaggregated node \<Longrightarrow> unaggregated t"
proof (induction ps arbitrary: node)
  case Nil
  then show ?case by simp
next
  case (Cons p ps)
  obtain node1 where 1: "quad_node_insert_b32 n node p = Some node1"
    and 2: "insert_points_b32 n node1 ps = Some t"
    using Cons.prems(1) by (auto split: option.splits)
  show ?case by (rule Cons.IH[OF 2 insert_b32_unaggregated[OF 1 Cons.prems(2)]])
qed





lemma Nats_nonneg: "x \<in> \<nat> \<Longrightarrow> 0 \<le> (x :: real)"
  by (auto elim: Nats_cases)

lemma foldl_fadd_nat:
  "a \<in> \<nat> \<Longrightarrow> (\<And>x. x \<in> set xs \<Longrightarrow> x \<in> \<nat>) \<Longrightarrow> a + sum_list xs \<le> 2 ^ 24
   \<Longrightarrow> foldl fadd a xs = a + sum_list xs"
proof (induction xs arbitrary: a)
  case Nil
  then show ?case by simp
next
  case (Cons x xs)
  have x: "x \<in> \<nat>" using Cons.prems(2) by simp
  have nn: "0 \<le> sum_list xs"
    by (rule sum_list_nonneg) (simp add: Cons.prems(2) Nats_nonneg)
  have ax: "a + x \<in> \<nat>" using Cons.prems(1) x by (rule Nats_add)
  then obtain k where k: "a + x = of_nat k" by (auto elim: Nats_cases)
  have "a + x \<le> 2 ^ 24" using Cons.prems(3) nn by simp
  then have "(of_int (int k) :: real) \<le> of_int (2 ^ 24)" unfolding k by simp
  then have "int k \<le> 2 ^ 24" by (simp only: of_int_le_iff)
  then have "\<bar>int k\<bar> \<le> 2 ^ 24" by simp
  from binary32_fixed_int[OF this] have "fadd a x = a + x"
    unfolding fadd_def k by simp
  moreover have "foldl fadd (a + x) xs = (a + x) + sum_list xs"
    by (rule Cons.IH[OF ax]) (use Cons.prems in \<open>simp_all add: add.assoc\<close>)
  ultimately show ?case by (simp add: add.assoc)
qed

lemma sum_list_Nats: "(\<And>x. x \<in> set xs \<Longrightarrow> x \<in> \<nat>) \<Longrightarrow> sum_list xs \<in> (\<nat> :: real set)"
  by (induction xs) (auto intro: Nats_add Nats_0)

lemma sum_list_member_le:
  "(\<And>y. y \<in> set xs \<Longrightarrow> 0 \<le> (y :: real)) \<Longrightarrow> x \<in> set xs \<Longrightarrow> x \<le> sum_list xs"
  by (rule member_le_sum_list) auto

lemma compute_mass_b32_total:
  "unaggregated node \<Longrightarrow> (\<And>p. p \<in> set (quad_node_points node) \<Longrightarrow> mass p \<in> \<nat>)
   \<Longrightarrow> (\<Sum>p\<leftarrow>quad_node_points node. mass p) \<le> 2 ^ 24
   \<Longrightarrow> total_mass (quad_node_compute_mass_b32 node) = (\<Sum>p\<leftarrow>quad_node_points node. mass p)"
proof (induction node)
  case (Quad_node tm com b pt cs)
  show ?case
  proof (cases "cs = []")
    case True
    then show ?thesis using Quad_node.prems(1)
      by (cases pt) (simp_all add: quad_node_is_leaf_def)
  next
    case False
    let ?s = "\<lambda>c. \<Sum>p\<leftarrow>quad_node_points c. mass p"
    have pts: "quad_node_points (Quad_node tm com b pt cs) = concat (map quad_node_points cs)"
      using False by (simp add: quad_node_is_leaf_def)
    have tot: "(\<Sum>p\<leftarrow>quad_node_points (Quad_node tm com b pt cs). mass p) = (\<Sum>c\<leftarrow>cs. ?s c)"
      unfolding pts by (simp add: sum_mass_concat o_def)
    have nat: "?s c \<in> \<nat>" if "c \<in> set cs" for c
      by (rule sum_list_Nats) (use that Quad_node.prems(2) pts in auto)
    have le: "?s c \<le> 2 ^ 24" if "c \<in> set cs" for c
    proof -
      have "?s c \<le> (\<Sum>c\<leftarrow>cs. ?s c)"
        by (rule sum_list_member_le) (use that nat Nats_nonneg in auto)
      then show ?thesis using Quad_node.prems(3) unfolding tot by linarith
    qed
    have ih: "total_mass (quad_node_compute_mass_b32 c) = ?s c" if "c \<in> set cs" for c
      by (rule Quad_node.IH[OF that])
         (use that Quad_node.prems(1,2) pts le in \<open>auto simp: list_all_iff\<close>)
    have "foldl (\<lambda>acc child. fadd acc (total_mass child)) 0 (map quad_node_compute_mass_b32 cs)
          = foldl fadd 0 (map (\<lambda>c. total_mass (quad_node_compute_mass_b32 c)) cs)"
      by (simp add: foldl_map)
    also have "\<dots> = foldl fadd 0 (map ?s cs)"
      using ih by (simp cong: map_cong)
    also have "\<dots> = 0 + sum_list (map ?s cs)"
      by (rule foldl_fadd_nat) (use nat Quad_node.prems(3) tot Nats_0 in auto)
    finally show ?thesis using False unfolding tot
      by (simp add: quad_node_is_leaf_def Let_def)
  qed
qed

lemma compute_mass_b32_points:
  "quad_node_points (quad_node_compute_mass_b32 node) = quad_node_points node"
proof (induction node)
  case (Quad_node tm com b pt cs)
  show ?case
  proof (cases "cs = []")
    case True
    then show ?thesis by (cases pt) (simp_all add: quad_node_is_leaf_def)
  next
    case False
    then show ?thesis using Quad_node.IH
      by (simp add: quad_node_is_leaf_def Let_def cong: map_cong)
  qed
qed

section \<open>Force evaluation in binary32\<close>

text \<open>
  The softened distance and the denominator of the force are positive in binary32 as
  well, so a target point of nonzero mass never divides by zero.
\<close>

lemma softened_distance_b32_pos:
  "0 < fsqrt (fadd (fadd (fmul dx dx) (fmul dy dy)) (fmul SOFTENING SOFTENING))"
proof -
  have s: "fmul SOFTENING SOFTENING = 225"
    using binary32_fixed_int[of 225] by (simp add: fmul_def SOFTENING_def)
  have "0 \<le> fmul dx dx" "0 \<le> fmul dy dy" unfolding fmul_def by (simp_all add: binary32_nonneg)
  then have "0 \<le> fadd (fmul dx dx) (fmul dy dy)" unfolding fadd_def by (simp add: binary32_nonneg)
  then have "1 \<le> fadd (fmul dx dx) (fmul dy dy) + 225" by simp
  define t where "t = fadd (fadd (fmul dx dx) (fmul dy dy)) 225"
  have te: "\<bar>t - (fadd (fmul dx dx) (fmul dy dy) + 225)\<bar>
            \<le> max (\<bar>fadd (fmul dx dx) (fmul dy dy) + 225\<bar> / 2 ^ 24) (1 / 2 ^ 150)"
    unfolding t_def fadd_def by (rule binary32_error)
  have "1 \<le> t"
  proof -
    define x where "x = fadd (fmul dx dx) (fmul dy dy) + 225"
    have x: "225 \<le> x" using \<open>0 \<le> fadd (fmul dx dx) (fmul dy dy)\<close> by (simp add: x_def)
    have "max (\<bar>x\<bar> / 2 ^ 24) (1 / 2 ^ 150) \<le> x / 2"
    proof (rule max.boundedI)
      have "\<bar>x\<bar> / 2 ^ 24 = x / 2 ^ 24" using x by simp
      also have "\<dots> \<le> x / 2" using x by (intro divide_left_mono) simp_all
      finally show "\<bar>x\<bar> / 2 ^ 24 \<le> x / 2" .
      have "(1 :: real) / 2 ^ 150 \<le> 1 / 2" by (intro divide_left_mono) simp_all
      then show "1 / 2 ^ 150 \<le> x / 2" using x by linarith
    qed
    then show ?thesis using te x unfolding x_def[symmetric] by linarith
  qed
  then have "1 \<le> sqrt t" by simp
  then show ?thesis unfolding fsqrt_def s t_def[symmetric] by (rule binary32_pos)
qed

lemma force_denominator_b32_pos:
  "0 < fadd (fmul d d) (fmul SOFTENING SOFTENING)"
proof -
  have s: "fmul SOFTENING SOFTENING = 225"
    using binary32_fixed_int[of 225] by (simp add: fmul_def SOFTENING_def)
  have "0 \<le> fmul d d" unfolding fmul_def by (simp add: binary32_nonneg)
  then have "1 \<le> fmul d d + 225" by simp
  then show ?thesis unfolding s fadd_def by (rule binary32_pos)
qed

lemma distance_b32_pos: "0 < distance_b32 c x"
  unfolding distance_b32_def Let_def by (rule softened_distance_b32_pos)

lemma leaf_force_b32:
  assumes "mass p \<noteq> 0"
  shows "quad_node_compute_force_b32 (Quad_node (mass q) (position q) b pt []) p
         = Inr (p\<lparr>velocity := leaf_contribution_b32 p (velocity p) q\<rparr>)"
proof (cases "mass q = 0 \<or> position p = position q")
  case True
  then show ?thesis by (auto simp: leaf_contribution_b32_def)
next
  case False
  have d0: "distance_b32 (position q) (position p) \<noteq> 0"
    using distance_b32_pos[of "position q" "position p"] by simp
  have den0: "fadd (fmul (distance_b32 (position q) (position p))
                         (distance_b32 (position q) (position p)))
                   (fmul SOFTENING SOFTENING) \<noteq> 0"
    using force_denominator_b32_pos[of "distance_b32 (position q) (position p)"] by simp
  show ?thesis
    using False assms d0 den0
    by (subst quad_node_compute_force_b32.simps)
       (simp add: leaf_contribution_b32_def pair_velocity_b32_def distance_b32_def Let_def
          quad_node_is_leaf_def)
qed

lemma opened_b32_velocity [simp]: "opened_b32 t (p\<lparr>velocity := v\<rparr>) = opened_b32 t p"
  by (induction t) (simp add: list_all_iff cong: conj_cong)

lemma leaf_contribution_b32_velocity [simp]:
  "leaf_contribution_b32 (p\<lparr>velocity := v\<rparr>) = leaf_contribution_b32 p"
  by (simp add: fun_eq_iff leaf_contribution_b32_def pair_velocity_b32_def)

lemma compute_mass_b32_empty:
  "unaggregated t \<Longrightarrow> quad_node_points t = [] \<Longrightarrow> total_mass (quad_node_compute_mass_b32 t) = 0"
  using compute_mass_b32_total[of t] by simp

lemma children_force_b32:
  assumes "\<And>c p. c \<in> set cs \<Longrightarrow> opened_b32 (quad_node_compute_mass_b32 c) p \<Longrightarrow> mass p = m
            \<Longrightarrow> quad_node_compute_force_b32 (quad_node_compute_mass_b32 c) p
                = Inr (p\<lparr>velocity := foldl (leaf_contribution_b32 p) (velocity p)
                                          (quad_node_points c)\<rparr>)"
    and "list_all (\<lambda>c. opened_b32 (quad_node_compute_mass_b32 c) p) cs" and "mass p = m"
  shows "fold (\<lambda>child r. case r of Inl e \<Rightarrow> Inl e
                          | Inr q \<Rightarrow> quad_node_compute_force_b32 child q)
              (map quad_node_compute_mass_b32 cs) (Inr p)
         = Inr (p\<lparr>velocity := foldl (leaf_contribution_b32 p) (velocity p)
                                   (concat (map quad_node_points cs))\<rparr>)"
  using assms
proof (induction cs arbitrary: p)
  case Nil
  then show ?case by simp
next
  case (Cons c cs)
  let ?p1 = "p\<lparr>velocity := foldl (leaf_contribution_b32 p) (velocity p) (quad_node_points c)\<rparr>"
  have 1: "quad_node_compute_force_b32 (quad_node_compute_mass_b32 c) p = Inr ?p1"
    by (rule Cons.prems(1)) (use Cons.prems(2,3) in simp_all)
  have "fold (\<lambda>child r. case r of Inl e \<Rightarrow> Inl e
                          | Inr q \<Rightarrow> quad_node_compute_force_b32 child q)
              (map quad_node_compute_mass_b32 cs) (Inr ?p1)
         = Inr (?p1\<lparr>velocity := foldl (leaf_contribution_b32 ?p1) (velocity ?p1)
                                   (concat (map quad_node_points cs))\<rparr>)"
    by (rule Cons.IH) (use Cons.prems in simp_all)
  then show ?case using 1 by simp
qed

lemma direct_summation_b32:
  "unaggregated t \<Longrightarrow> opened_b32 (quad_node_compute_mass_b32 t) p \<Longrightarrow> mass p \<noteq> 0
   \<Longrightarrow> quad_node_compute_force_b32 (quad_node_compute_mass_b32 t) p
       = Inr (p\<lparr>velocity := foldl (leaf_contribution_b32 p) (velocity p) (quad_node_points t)\<rparr>)"
proof (induction t arbitrary: p)
  case (Quad_node tm com b pt cs)
  show ?case
  proof (cases "cs = []")
    case True
    show ?thesis
    proof (cases pt)
      case None
      then show ?thesis using True Quad_node.prems(1) by (simp add: quad_node_is_leaf_def)
    next
      case (Some q)
      then show ?thesis using True leaf_force_b32[OF Quad_node.prems(3), of q b pt]
        by (simp add: quad_node_is_leaf_def)
    qed
  next
    case False
    let ?t = "Quad_node tm com b pt cs"
    obtain tm' com' where cm: "quad_node_compute_mass_b32 ?t
        = Quad_node tm' com' b pt (map quad_node_compute_mass_b32 cs)"
      using False by (simp add: quad_node_is_leaf_def Let_def)
    have pts: "quad_node_points ?t = concat (map quad_node_points cs)"
      using False by (simp add: quad_node_is_leaf_def)
    show ?thesis
    proof (cases "quad_node_points ?t = []")
      case True
      have "tm' = 0" using compute_mass_b32_empty[OF Quad_node.prems(1) True] unfolding cm by simp
      then show ?thesis unfolding cm True by simp
    next
      case nonempty: False
      have op: "tm' \<noteq> 0" "position p \<noteq> com'"
        "\<not> fdiv (width b) (distance_b32 com' (position p)) < THETA"
        "list_all (\<lambda>child. opened_b32 child p) (map quad_node_compute_mass_b32 cs)"
        using Quad_node.prems(2) False nonempty unfolding cm pts
        by (auto simp: quad_node_is_leaf_def compute_mass_b32_points)
      have d0: "distance_b32 com' (position p) \<noteq> 0"
        using distance_b32_pos[of com' "position p"] by simp
      have "quad_node_compute_force_b32
              (Quad_node tm' com' b pt (map quad_node_compute_mass_b32 cs)) p
            = fold (\<lambda>child r. case r of Inl e \<Rightarrow> Inl e
                          | Inr q \<Rightarrow> quad_node_compute_force_b32 child q)
                (map quad_node_compute_mass_b32 cs) (Inr p)"
        using op(1,2,3) d0 False
        by (subst quad_node_compute_force_b32.simps)
           (simp add: distance_b32_def Let_def quad_node_is_leaf_def)
      also have "\<dots> = Inr (p\<lparr>velocity := foldl (leaf_contribution_b32 p) (velocity p)
                                   (concat (map quad_node_points cs))\<rparr>)"
      proof (rule children_force_b32[where m = "mass p"])
        fix c p' assume c: "c \<in> set cs"
          and o: "opened_b32 (quad_node_compute_mass_b32 c) p'" and m: "mass p' = mass p"
        show "quad_node_compute_force_b32 (quad_node_compute_mass_b32 c) p'
                = Inr (p'\<lparr>velocity := foldl (leaf_contribution_b32 p') (velocity p')
                                          (quad_node_points c)\<rparr>)"
          by (rule Quad_node.IH[OF c _ o])
             (use c Quad_node.prems(1,3) m in \<open>simp_all add: list_all_iff\<close>)
      next
        show "list_all (\<lambda>c. opened_b32 (quad_node_compute_mass_b32 c) p) cs"
          using op(4) by (simp add: list_all_iff)
      qed simp
      finally show ?thesis unfolding cm pts .
    qed
  qed
qed

lemma pair_velocity_b32_swap:
  assumes "mass p = mass q"
  shows "vec_add_b32 (Vector2f 0 0) (pair_velocity_b32 q p)
         = Vector2f (- vx (vec_add_b32 (Vector2f 0 0) (pair_velocity_b32 p q)))
                    (- vy (vec_add_b32 (Vector2f 0 0) (pair_velocity_b32 p q)))"
proof -
  define dx where "dx = fsub (vx (position q)) (vx (position p))"
  define dy where "dy = fsub (vy (position q)) (vy (position p))"
  have dirA: "vec_sub_b32 (position q) (position p) = Vector2f dx dy"
    by (simp add: vec_sub_b32_def dx_def dy_def)
  have dirB: "vec_sub_b32 (position p) (position q) = Vector2f (- dx) (- dy)"
    unfolding vec_sub_b32_def dx_def dy_def
    using fsub_swap[of "vx (position p)" "vx (position q)"]
          fsub_swap[of "vy (position p)" "vy (position q)"]
    by simp
  have sq: "fmul (- dx) (- dx) = fmul dx dx" "fmul (- dy) (- dy) = fmul dy dy"
    by (simp_all add: fmul_def)
  have neg: "fdiv (- a) c = - fdiv a c" "fmul (- a) c = - fmul a c" "fadd 0 (- a) = - fadd 0 a"
    for a c
    using binary32_minus[of "a / c"] binary32_minus[of "a * c"] binary32_minus[of a]
    by (simp_all add: fdiv_def fmul_def fadd_def)
  have comm: "fmul (fmul GRAVITY_CONSTANT_b32 (mass p)) (mass q)
              = fmul (fmul GRAVITY_CONSTANT_b32 (mass q)) (mass p)"
    using assms by simp
  have dB: "distance_b32 (position p) (position q) = distance_b32 (position q) (position p)"
    unfolding distance_b32_def Let_def dirA dirB by (simp add: sq)
  show ?thesis
    unfolding pair_velocity_b32_def Let_def dB dirA dirB comm
    by (simp add: neg vec_add_b32_def vec_mul_b32_def vec_div_b32_def assms)
qed

text \<open>
  Two bodies of equal mass at rest: when the tree stores both and the force evaluation
  of each reaches the leaves, each is accelerated by the leaf that holds the other, and
  the two velocities are exact opposites. Every operation of the force branch is odd in
  the direction, and rounding is odd.
\<close>

lemma two_body_b32:
  assumes "m \<noteq> 0" and "A \<noteq> B"
    and "build_tree_b32 n b ps = Some t"
    and "quad_node_points t = [point_init m A (Vector2f 0 0), point_init m B (Vector2f 0 0)]
         \<or> quad_node_points t = [point_init m B (Vector2f 0 0), point_init m A (Vector2f 0 0)]"
    and "opened_b32 t (point_init m A (Vector2f 0 0))"
    and "opened_b32 t (point_init m B (Vector2f 0 0))"
  shows "\<exists>v. quad_node_compute_force_b32 t (point_init m A (Vector2f 0 0))
               = Inr (point_init m A v)
            \<and> quad_node_compute_force_b32 t (point_init m B (Vector2f 0 0))
               = Inr (point_init m B (Vector2f (- vx v) (- vy v)))"
proof -
  let ?a = "point_init m A (Vector2f 0 0)" and ?b = "point_init m B (Vector2f 0 0)"
  obtain t0 where t0: "insert_points_b32 n (quad_node_init b) ps = Some t0"
    and t: "t = quad_node_compute_mass_b32 t0"
    using assms(3) by (auto simp: build_tree_b32_def)
  have un: "unaggregated t0" by (rule insert_points_b32_unaggregated[OF t0]) simp
  have pts: "quad_node_points t0 = [?a, ?b] \<or> quad_node_points t0 = [?b, ?a]"
    using assms(4) unfolding t compute_mass_b32_points .
  have ma: "mass ?a \<noteq> 0" and mb: "mass ?b \<noteq> 0" using assms(1) by (simp_all add: point_init_def)
  have fa: "quad_node_compute_force_b32 t ?a
            = Inr (?a\<lparr>velocity := foldl (leaf_contribution_b32 ?a) (velocity ?a) (quad_node_points t0)\<rparr>)"
    unfolding t by (rule direct_summation_b32[OF un _ ma]) (use assms(5) t in simp)
  have fb: "quad_node_compute_force_b32 t ?b
            = Inr (?b\<lparr>velocity := foldl (leaf_contribution_b32 ?b) (velocity ?b) (quad_node_points t0)\<rparr>)"
    unfolding t by (rule direct_summation_b32[OF un _ mb]) (use assms(6) t in simp)
  have va: "foldl (leaf_contribution_b32 ?a) (velocity ?a) (quad_node_points t0)
            = vec_add_b32 (Vector2f 0 0) (pair_velocity_b32 ?a ?b)"
    using pts assms(1,2) by (auto simp: leaf_contribution_b32_def point_init_def)
  have vb: "foldl (leaf_contribution_b32 ?b) (velocity ?b) (quad_node_points t0)
            = vec_add_b32 (Vector2f 0 0) (pair_velocity_b32 ?b ?a)"
    using pts assms(1,2) by (auto simp: leaf_contribution_b32_def point_init_def)
  have sw: "vec_add_b32 (Vector2f 0 0) (pair_velocity_b32 ?b ?a)
         = Vector2f (- vx (vec_add_b32 (Vector2f 0 0) (pair_velocity_b32 ?a ?b)))
                    (- vy (vec_add_b32 (Vector2f 0 0) (pair_velocity_b32 ?a ?b)))"
    by (rule pair_velocity_b32_swap) (simp add: point_init_def)
  show ?thesis
    unfolding fa fb va vb sw by (intro exI[of _ "vec_add_b32 (Vector2f 0 0) (pair_velocity_b32 ?a ?b)"])
      (simp add: point_init_def)
qed

lemma children_force_b32_total:
  assumes "\<And>c p. c \<in> set cs \<Longrightarrow> mass p \<noteq> 0
            \<Longrightarrow> \<exists>q. quad_node_compute_force_b32 c p = Inr q \<and> mass q = mass p
                    \<and> position q = position p"
    and "mass p \<noteq> 0"
  shows "\<exists>q. fold (\<lambda>child r. case r of Inl e \<Rightarrow> Inl e
                          | Inr q \<Rightarrow> quad_node_compute_force_b32 child q) cs (Inr p) = Inr q
              \<and> mass q = mass p \<and> position q = position p"
  using assms
proof (induction cs arbitrary: p)
  case Nil
  then show ?case by simp
next
  case (Cons c cs)
  obtain p1 where 1: "quad_node_compute_force_b32 c p = Inr p1" "mass p1 = mass p"
    "position p1 = position p"
    using Cons.prems(1)[of c p] Cons.prems(2) by auto
  have "\<exists>q. fold (\<lambda>child r. case r of Inl e \<Rightarrow> Inl e
                          | Inr q \<Rightarrow> quad_node_compute_force_b32 child q) cs (Inr p1) = Inr q
              \<and> mass q = mass p1 \<and> position q = position p1"
    by (rule Cons.IH) (use Cons.prems 1 in auto)
  then show ?case using 1 by simp
qed

lemma compute_force_b32_total:
  "mass p \<noteq> 0 \<Longrightarrow> \<exists>q. quad_node_compute_force_b32 node p = Inr q \<and> mass q = mass p
                         \<and> position q = position p"
proof (induction node arbitrary: p)
  case (Quad_node tm com b pt cs)
  have d0: "fsqrt (fadd (fadd (fmul dx dx) (fmul dy dy)) (fmul SOFTENING SOFTENING)) \<noteq> 0" for dx dy
    using softened_distance_b32_pos[of dx dy] by simp
  have den0: "fadd (fmul d d) (fmul SOFTENING SOFTENING) \<noteq> 0" for d
    using force_denominator_b32_pos[of d] by simp
  have ch: "\<exists>q. fold (\<lambda>child r. case r of Inl e \<Rightarrow> Inl e
                          | Inr q \<Rightarrow> quad_node_compute_force_b32 child q) cs (Inr p) = Inr q
              \<and> mass q = mass p \<and> position q = position p"
    by (rule children_force_b32_total) (use Quad_node in auto)
  show ?case
    using Quad_node.prems ch d0 den0
    by (subst quad_node_compute_force_b32.simps) (simp add: Let_def)
qed

lemma compute_force_b32_skip:
  "total_mass node = 0 \<or> center_of_mass node = position p
   \<Longrightarrow> quad_node_compute_force_b32 node p = Inr p"
  by (cases node) auto

lemma sqrt_1225: "sqrt 1225 = 35"
  by (rule real_sqrt_unique) simp_all

text \<open>
  The points \<open>(100, 100)\<close> and \<open>(160, 120)\<close> in the rectangle of \<^verbatim>\<open>main\<close>: the fourth
  subdivision separates them, and every node that holds both is opened (its width is at
  least 100, its center of mass \<open>(130, 110)\<close> is at distance 35 from both).
\<close>

lemma two_body_b32_scenario:
  "\<exists>t. build_tree_b32 6 world_boundary
          [point_init 1 (Vector2f 100 100) (Vector2f 0 0),
           point_init 1 (Vector2f 160 120) (Vector2f 0 0)] = Some t
      \<and> quad_node_points t = [point_init 1 (Vector2f 100 100) (Vector2f 0 0),
                               point_init 1 (Vector2f 160 120) (Vector2f 0 0)]
      \<and> opened_b32 t (point_init 1 (Vector2f 100 100) (Vector2f 0 0))
      \<and> opened_b32 t (point_init 1 (Vector2f 160 120) (Vector2f 0 0))"
  by (simp add: tree_b32_eval force_b32_eval distance_b32_def sqrt_1225 b32_eval)

section \<open>Claims\<close>

subsection \<open>C1\<close>




subsection \<open>C2\<close>

text \<open>
  C2, as amended. With two points of mass 1 at \<open>(0, 0)\<close> and \<open>(100, 0)\<close>, at rest, in
  the rectangle of \<^verbatim>\<open>main\<close>, one tick gives the points the velocities \<open>(d, 0)\<close> and
  \<open>(- d, 0)\<close> with \<open>d = 1 / (1045 * sqrt 10225)\<close>, that is
  \<open>100 / sqrt (100\<^sup>2 + 15\<^sup>2) * 0.1 / (100\<^sup>2 + 15\<^sup>2 + 15\<^sup>2)\<close>, between \<open>9.46e-6\<close> and
  \<open>9.47e-6\<close>: the softening enters the denominator of the force twice, and the
  direction is divided by the softened distance.
\<close>

theorem two_point_tick:
  "4 \<le> n \<Longrightarrow>
   simulation_tick n world_boundary
     [point_init 1 (Vector2f 0 0) (Vector2f 0 0), point_init 1 (Vector2f 100 0) (Vector2f 0 0)]
   = Some [Inr \<lparr>mass = 1, position = Vector2f (1 / (1045 * sqrt 10225)) 0,
                velocity = Vector2f (1 / (1045 * sqrt 10225)) 0\<rparr>,
           Inr \<lparr>mass = 1, position = Vector2f (100 - 1 / (1045 * sqrt 10225)) 0,
                velocity = Vector2f (- (1 / (1045 * sqrt 10225))) 0\<rparr>]
   \<and> 946 / 10 ^ 8 < 1 / (1045 * sqrt 10225) \<and> 1 / (1045 * sqrt 10225) < 947 / 10 ^ 8"
  using two_point_result two_point_magnitude by simp

theorem two_point_tick_witness:
  "simulation_tick 4 world_boundary
     [point_init 1 (Vector2f 0 0) (Vector2f 0 0), point_init 1 (Vector2f 100 0) (Vector2f 0 0)]
   = Some [Inr \<lparr>mass = 1, position = Vector2f (1 / (1045 * sqrt 10225)) 0,
                velocity = Vector2f (1 / (1045 * sqrt 10225)) 0\<rparr>,
           Inr \<lparr>mass = 1, position = Vector2f (100 - 1 / (1045 * sqrt 10225)) 0,
                velocity = Vector2f (- (1 / (1045 * sqrt 10225))) 0\<rparr>]"
  using two_point_tick [of 4] by simp

text \<open>
  C2 as stated fails: the velocities after the tick have the magnitude
  \<open>1 / (1045 * sqrt 10225)\<close>, which is more than \<open>3e-7\<close>, three per cent, away from
  \<open>0.1 * 1 * 1 / (100\<^sup>2 + 15\<^sup>2) = 9.78e-6\<close>.
\<close>

theorem two_point_tick_counterexample:
  "simulation_tick 4 world_boundary
     [point_init 1 (Vector2f 0 0) (Vector2f 0 0), point_init 1 (Vector2f 100 0) (Vector2f 0 0)]
   = Some [Inr \<lparr>mass = 1, position = Vector2f (1 / (1045 * sqrt 10225)) 0,
                velocity = Vector2f (1 / (1045 * sqrt 10225)) 0\<rparr>,
           Inr \<lparr>mass = 1, position = Vector2f (100 - 1 / (1045 * sqrt 10225)) 0,
                velocity = Vector2f (- (1 / (1045 * sqrt 10225))) 0\<rparr>]
   \<and> \<bar>1 / (1045 * sqrt 10225) - GRAVITY_CONSTANT * 1 * 1 / (100 * 100 + SOFTENING * SOFTENING)\<bar>
       > 3 / 10 ^ 7"
proof -
  have "simulation_tick 4 world_boundary
     [point_init 1 (Vector2f 0 0) (Vector2f 0 0), point_init 1 (Vector2f 100 0) (Vector2f 0 0)]
   = Some [Inr \<lparr>mass = 1, position = Vector2f (1 / (1045 * sqrt 10225)) 0,
                velocity = Vector2f (1 / (1045 * sqrt 10225)) 0\<rparr>,
           Inr \<lparr>mass = 1, position = Vector2f (100 - 1 / (1045 * sqrt 10225)) 0,
                velocity = Vector2f (- (1 / (1045 * sqrt 10225))) 0\<rparr>]"
    by (rule two_point_result) simp
  moreover have "\<bar>1 / (1045 * sqrt 10225)
                   - GRAVITY_CONSTANT * 1 * 1 / (100 * 100 + SOFTENING * SOFTENING)\<bar> > 3 / 10 ^ 7"
  proof -
    define d :: real where "d = 1 / (1045 * sqrt 10225)"
    have g: "GRAVITY_CONSTANT * 1 * 1 / (100 * 100 + SOFTENING * SOFTENING) = 1 / 102250"
      by (simp add: GRAVITY_CONSTANT_def SOFTENING_def)
    have "d < 947 / 10 ^ 8" unfolding d_def by (rule two_point_magnitude(2))
    moreover have "947 / 10 ^ 8 + 3 / 10 ^ 7 < (1 / 102250 :: real)" by simp
    ultimately have "3 / 10 ^ 7 < \<bar>d - 1 / 102250\<bar>" by linarith
    then show ?thesis unfolding g d_def .
  qed
  ultimately show ?thesis by (rule conjI)
qed

subsection \<open>C3\<close>



subsection \<open>C4\<close>

text \<open>
  C4, as amended. In binary32 \<^verbatim>\<open>quad_node_insert\<close> returns for every point, also for a
  point at the position of a stored one: some amount of fuel suffices, for every tree
  whose rectangles have binary32 fields. In exact arithmetic it returns for every point
  whose position differs from the positions of all points stored in the subtree; and
  when a well-formed subtree (the invariant of the trees that insertions build in exact
  arithmetic, lemmas \<open>built_well_formed\<close> and \<open>insert_well_formed\<close>) stores a point at
  the position of the new point, no amount of fuel suffices, since a rectangle can be
  halved for ever there.
\<close>

theorem insert_termination:
  "(float_bounds node \<longrightarrow> (\<exists>n node'. quad_node_insert_b32 n node p = Some node'))
   \<and> ((\<forall>q\<in>set (quad_node_points node). position q \<noteq> position p)
      \<longrightarrow> (\<exists>n node'. quad_node_insert n node p = Some node'))
   \<and> (well_formed node \<and> (\<exists>q\<in>set (quad_node_points node). position q = position p)
      \<longrightarrow> (\<forall>n. quad_node_insert n node p = None))"
proof (intro conjI impI allI)
  assume "float_bounds node"
  then show "\<exists>n node'. quad_node_insert_b32 n node p = Some node'"
    by (rule insert_b32_terminates)
next
  assume "\<forall>q\<in>set (quad_node_points node). position q \<noteq> position p"
  then show "\<exists>n node'. quad_node_insert n node p = Some node'"
    by (intro insert_terminates) simp
next
  fix n
  assume "well_formed node \<and> (\<exists>q\<in>set (quad_node_points node). position q = position p)"
  then show "quad_node_insert n node p = None"
    using insert_diverges by blast
qed

theorem insert_termination_witness:
  "float_bounds (Quad_node 0 (Vector2f 0 0) world_boundary
           (Some (point_init 1 (Vector2f 100 100) (Vector2f 0 0))) [])
   \<and> (\<exists>n node'. quad_node_insert_b32 n
        (Quad_node 0 (Vector2f 0 0) world_boundary
           (Some (point_init 1 (Vector2f 100 100) (Vector2f 0 0))) [])
        (point_init 5 (Vector2f 100 100) (Vector2f 1 1)) = Some node')
   \<and> (\<exists>n node'. quad_node_insert n
        (Quad_node 0 (Vector2f 0 0) world_boundary
           (Some (point_init 1 (Vector2f 100 100) (Vector2f 0 0))) [])
        (point_init 1 (Vector2f 200 200) (Vector2f 0 0)) = Some node')
   \<and> (\<forall>n. quad_node_insert n
        (Quad_node 0 (Vector2f 0 0) world_boundary
           (Some (point_init 1 (Vector2f 100 100) (Vector2f 0 0))) [])
        (point_init 5 (Vector2f 100 100) (Vector2f 1 1)) = None)"
  using insert_termination [of "Quad_node 0 (Vector2f 0 0) world_boundary
           (Some (point_init 1 (Vector2f 100 100) (Vector2f 0 0))) []"
           "point_init 1 (Vector2f 200 200) (Vector2f 0 0)"]
        insert_termination [of "Quad_node 0 (Vector2f 0 0) world_boundary
           (Some (point_init 1 (Vector2f 100 100) (Vector2f 0 0))) []"
           "point_init 5 (Vector2f 100 100) (Vector2f 1 1)"]
        float_rect_world
  by (simp add: point_init_def world_boundary_def contains_def quad_node_is_leaf_def)

text \<open>
  In binary32 the second half of C4 fails. Two points at \<open>(100, 100)\<close> in the
  rectangle of \<^verbatim>\<open>main\<close>: the insertion of the second one subdivides 28 times; then
  no quadrant contains the position, both points are dropped, and the call returns a
  tree of 113 nodes that stores no point.
\<close>

theorem insert_termination_counterexample:
  "map_option (\<lambda>t. (quad_node_points t, quad_node_count t))
     (insert_points_b32 29 (quad_node_init world_boundary)
        [point_init 1 (Vector2f 100 100) (Vector2f 0 0),
         point_init 1 (Vector2f 100 100) (Vector2f 0 0)])
   = Some ([], 113)"
  by (simp add: tree_b32_eval b32_eval)

subsection \<open>C5\<close>

text \<open>
  C5, as amended. Two points of equal mass \<open>m > 0\<close> (the data model has positive
  masses) at distinct positions \<open>A\<close> and \<open>B\<close>, and no other points. In binary32, with
  both points at rest: when the built tree stores both points and the force evaluation
  of each reaches the leaves, the two points leave with exactly opposite velocities,
  hence with accelerations of the same magnitude. In exact arithmetic, with both
  positions inside the boundary and any velocities: the tree can be built, and against
  the aggregated tree the two points receive opposite changes of velocity, hence
  changes of the same magnitude. The change of velocity is the acceleration times
  \<open>TIME_STEP\<close>.
\<close>

theorem two_body_symmetry:
  "(0 < m \<and> A \<noteq> B
      \<and> build_tree_b32 k b [point_init m A (Vector2f 0 0), point_init m B (Vector2f 0 0)]
          = Some t
      \<and> (quad_node_points t
            = [point_init m A (Vector2f 0 0), point_init m B (Vector2f 0 0)]
          \<or> quad_node_points t
            = [point_init m B (Vector2f 0 0), point_init m A (Vector2f 0 0)])
      \<and> opened_b32 t (point_init m A (Vector2f 0 0))
      \<and> opened_b32 t (point_init m B (Vector2f 0 0))
    \<longrightarrow> (\<exists>v. quad_node_compute_force_b32 t (point_init m A (Vector2f 0 0))
                 = Inr (point_init m A v)
             \<and> quad_node_compute_force_b32 t (point_init m B (Vector2f 0 0))
                 = Inr (point_init m B (Vector2f (- vx v) (- vy v)))))
   \<and> (0 < m \<and> A \<noteq> B \<and> contains b A \<and> contains b B
    \<longrightarrow> (\<exists>n node. build_tree n b [point_init m A vA, point_init m B vB] = Some node)
       \<and> (\<forall>n node. build_tree n b [point_init m A vA, point_init m B vB] = Some node \<longrightarrow>
            (\<exists>qA qB. quad_node_compute_force node (point_init m A vA) = Inr qA
                   \<and> quad_node_compute_force node (point_init m B vB) = Inr qB
                   \<and> vec_sub (velocity qA) vA = vec_sub vB (velocity qB)
                   \<and> magnitude (vec_sub (velocity qA) vA)
                     = magnitude (vec_sub (velocity qB) vB))))"
proof (rule conjI; rule impI)
  assume h: "0 < m \<and> A \<noteq> B
      \<and> build_tree_b32 k b [point_init m A (Vector2f 0 0), point_init m B (Vector2f 0 0)]
          = Some t
      \<and> (quad_node_points t
            = [point_init m A (Vector2f 0 0), point_init m B (Vector2f 0 0)]
          \<or> quad_node_points t
            = [point_init m B (Vector2f 0 0), point_init m A (Vector2f 0 0)])
      \<and> opened_b32 t (point_init m A (Vector2f 0 0))
      \<and> opened_b32 t (point_init m B (Vector2f 0 0))"
  then have "m \<noteq> 0" by simp
  then show "\<exists>v. quad_node_compute_force_b32 t (point_init m A (Vector2f 0 0))
                 = Inr (point_init m A v)
             \<and> quad_node_compute_force_b32 t (point_init m B (Vector2f 0 0))
                 = Inr (point_init m B (Vector2f (- vx v) (- vy v)))"
    using h by (intro two_body_b32[of m A B k b _ t]) blast+
next
  assume "0 < m \<and> A \<noteq> B \<and> contains b A \<and> contains b B"
  then have h: "0 < m" "A \<noteq> B" "contains b A" "contains b B" by simp_all
  show "(\<exists>n node. build_tree n b [point_init m A vA, point_init m B vB] = Some node)
       \<and> (\<forall>n node. build_tree n b [point_init m A vA, point_init m B vB] = Some node \<longrightarrow>
            (\<exists>qA qB. quad_node_compute_force node (point_init m A vA) = Inr qA
                   \<and> quad_node_compute_force node (point_init m B vB) = Inr qB
                   \<and> vec_sub (velocity qA) vA = vec_sub vB (velocity qB)
                   \<and> magnitude (vec_sub (velocity qA) vA)
                     = magnitude (vec_sub (velocity qB) vB)))"
    by (rule two_body_exact[OF h])
qed

theorem two_body_symmetry_witness:
  "(\<exists>t v. build_tree_b32 6 world_boundary
          [point_init 1 (Vector2f 100 100) (Vector2f 0 0),
           point_init 1 (Vector2f 160 120) (Vector2f 0 0)] = Some t
      \<and> opened_b32 t (point_init 1 (Vector2f 100 100) (Vector2f 0 0))
      \<and> opened_b32 t (point_init 1 (Vector2f 160 120) (Vector2f 0 0))
      \<and> quad_node_compute_force_b32 t (point_init 1 (Vector2f 100 100) (Vector2f 0 0))
          = Inr (point_init 1 (Vector2f 100 100) v)
      \<and> quad_node_compute_force_b32 t (point_init 1 (Vector2f 160 120) (Vector2f 0 0))
          = Inr (point_init 1 (Vector2f 160 120) (Vector2f (- vx v) (- vy v))))
   \<and> (\<exists>n node qA qB.
     build_tree n world_boundary
       [point_init 1 (Vector2f 0 0) (Vector2f 0 0), point_init 1 (Vector2f 100 0) (Vector2f 0 0)]
       = Some node
     \<and> quad_node_compute_force node (point_init 1 (Vector2f 0 0) (Vector2f 0 0)) = Inr qA
     \<and> quad_node_compute_force node (point_init 1 (Vector2f 100 0) (Vector2f 0 0)) = Inr qB
     \<and> vec_sub (velocity qA) (Vector2f 0 0) = vec_sub (Vector2f 0 0) (velocity qB)
     \<and> magnitude (vec_sub (velocity qA) (Vector2f 0 0))
       = magnitude (vec_sub (velocity qB) (Vector2f 0 0)))"
proof (intro conjI)
  obtain t where t: "build_tree_b32 6 world_boundary
          [point_init 1 (Vector2f 100 100) (Vector2f 0 0),
           point_init 1 (Vector2f 160 120) (Vector2f 0 0)] = Some t"
      "quad_node_points t = [point_init 1 (Vector2f 100 100) (Vector2f 0 0),
                               point_init 1 (Vector2f 160 120) (Vector2f 0 0)]"
      "opened_b32 t (point_init 1 (Vector2f 100 100) (Vector2f 0 0))"
      "opened_b32 t (point_init 1 (Vector2f 160 120) (Vector2f 0 0))"
    using two_body_b32_scenario by blast
  have ne: "(0::real) < 1" "Vector2f 100 100 \<noteq> Vector2f 160 120" by simp_all
  show "\<exists>t v. build_tree_b32 6 world_boundary
          [point_init 1 (Vector2f 100 100) (Vector2f 0 0),
           point_init 1 (Vector2f 160 120) (Vector2f 0 0)] = Some t
      \<and> opened_b32 t (point_init 1 (Vector2f 100 100) (Vector2f 0 0))
      \<and> opened_b32 t (point_init 1 (Vector2f 160 120) (Vector2f 0 0))
      \<and> quad_node_compute_force_b32 t (point_init 1 (Vector2f 100 100) (Vector2f 0 0))
          = Inr (point_init 1 (Vector2f 100 100) v)
      \<and> quad_node_compute_force_b32 t (point_init 1 (Vector2f 160 120) (Vector2f 0 0))
          = Inr (point_init 1 (Vector2f 160 120) (Vector2f (- vx v) (- vy v)))"
    using two_body_symmetry
      [of 1 "Vector2f 100 100" "Vector2f 160 120" 6 world_boundary t] t ne
    by blast
next
  have h: "(0::real) < 1" "Vector2f 0 0 \<noteq> Vector2f 100 0"
    "contains world_boundary (Vector2f 0 0)" "contains world_boundary (Vector2f 100 0)"
    by (simp_all add: world_boundary_def contains_def)
  show "\<exists>n node qA qB.
     build_tree n world_boundary
       [point_init 1 (Vector2f 0 0) (Vector2f 0 0), point_init 1 (Vector2f 100 0) (Vector2f 0 0)]
       = Some node
     \<and> quad_node_compute_force node (point_init 1 (Vector2f 0 0) (Vector2f 0 0)) = Inr qA
     \<and> quad_node_compute_force node (point_init 1 (Vector2f 100 0) (Vector2f 0 0)) = Inr qB
     \<and> vec_sub (velocity qA) (Vector2f 0 0) = vec_sub (Vector2f 0 0) (velocity qB)
     \<and> magnitude (vec_sub (velocity qA) (Vector2f 0 0))
       = magnitude (vec_sub (velocity qB) (Vector2f 0 0))"
    using two_body_symmetry
      [of 1 "Vector2f 0 0" "Vector2f 100 0" _ world_boundary _ "Vector2f 0 0" "Vector2f 0 0"] h
    by blast
qed

text \<open>
  In binary32 C5 fails. Two points of mass 1 at rest at \<open>(100, 100)\<close> and
  \<open>(100 + 1 / 2 ^ 17, 100)\<close>, neighbours among the binary32 numbers, in the rectangle
  of \<^verbatim>\<open>main\<close>: the tree stores both, but the center of mass of every node that holds
  both is rounded to \<open>(100, 100)\<close>. The first point is at that center and receives no
  acceleration; the second one is accelerated towards it.
\<close>

theorem two_body_symmetry_counterexample:
  "map_option
     (\<lambda>t. (quad_node_compute_force_b32 t (point_init 1 (Vector2f 100 100) (Vector2f 0 0)),
           quad_node_compute_force_b32 t
             (point_init 1 (Vector2f (100 + 1 / 2 ^ 17) 100) (Vector2f 0 0))))
     (build_tree_b32 28 world_boundary
        [point_init 1 (Vector2f 100 100) (Vector2f 0 0),
         point_init 1 (Vector2f (100 + 1 / 2 ^ 17) 100) (Vector2f 0 0)])
   = Some (Inr (point_init 1 (Vector2f 100 100) (Vector2f 0 0)),
           Inr (point_init 1 (Vector2f (100 + 1 / 2 ^ 17) 100)
                  (Vector2f (- (8144531 / 2 ^ 55)) 0)))"
  by (simp add: tree_b32_eval force_b32_eval sqrt_225 b32_eval)

subsection \<open>C6\<close>

text \<open>
  C6. For a fixed tree and target point, a smaller threshold never gives fewer exact
  interactions (force contributions computed at leaf nodes): the count is antitone in
  the threshold, for all thresholds, positive or not. In the end-to-end scenario the
  count is 0 for the threshold 100 and 1 for the threshold 1 / 2 (lemma
  \<open>two_point_exact_interactions\<close>).
\<close>

theorem opening_angle_monotone:
  "theta' \<le> theta \<Longrightarrow> exact_interactions theta node p \<le> exact_interactions theta' node p"
proof (induction node)
  case (Quad_node tm com b pt cs)
  have "sum_list (map (\<lambda>child. exact_interactions theta child p) cs)
        \<le> sum_list (map (\<lambda>child. exact_interactions theta' child p) cs)"
    by (rule sum_list_mono) (use Quad_node in simp)
  then show ?case using Quad_node.prems by (simp add: Let_def)
qed

theorem opening_angle_monotone_witness:
  "(1 / 2 :: real) \<le> 100 \<and>
   exact_interactions 100 two_point_tree
       \<lparr>mass = 1, position = Vector2f 0 0, velocity = Vector2f 0 0\<rparr>
   \<le> exact_interactions (1 / 2) two_point_tree
       \<lparr>mass = 1, position = Vector2f 0 0, velocity = Vector2f 0 0\<rparr>"
  using opening_angle_monotone [of "1 / 2" 100 two_point_tree
      "\<lparr>mass = 1, position = Vector2f 0 0, velocity = Vector2f 0 0\<rparr>"]
  by simp

subsection \<open>C7\<close>

text \<open>
  C7, as amended. Inserting a point whose position lies outside the boundary of the
  node returns the node unchanged, and the tree built from a sequence of points is the
  tree built from the sequence without that point: the dropped point has no influence
  on the forces on the other points. The insertion reads the point and cannot change
  it. The dropped point stays in the collection, so the tick still evaluates the force
  of the tree on it.
\<close>

theorem insert_outside_boundary:
  assumes "\<not> contains (boundary node) (position p)"
  shows "quad_node_insert (Suc n) node p = Some node
       \<and> insert_points (Suc n) node (ps @ p # ps') = insert_points (Suc n) node (ps @ ps')"
  using assms insert_outside insert_points_drop by blast

theorem insert_outside_boundary_witness:
  "\<not> contains (boundary (quad_node_init world_boundary))
        (position (point_init 1 (Vector2f 900 900) (Vector2f 0 0)))
   \<and> quad_node_insert (Suc 0) (quad_node_init world_boundary)
        (point_init 1 (Vector2f 900 900) (Vector2f 0 0)) = Some (quad_node_init world_boundary)
   \<and> insert_points (Suc 0) (quad_node_init world_boundary)
        ([] @ point_init 1 (Vector2f 900 900) (Vector2f 0 0)
            # [point_init 1 (Vector2f 720 720) (Vector2f 0 0)])
      = insert_points (Suc 0) (quad_node_init world_boundary)
        ([] @ [point_init 1 (Vector2f 720 720) (Vector2f 0 0)])"
  using insert_outside_boundary [of "quad_node_init world_boundary"
          "point_init 1 (Vector2f 900 900) (Vector2f 0 0)" 0 "[]"
          "[point_init 1 (Vector2f 720 720) (Vector2f 0 0)]"]
  by (simp add: point_init_def world_boundary_def contains_def quad_node_init_def)

text \<open>
  C7 as stated fails in its clause that the dropped point receives no force: with a
  point at \<open>(720, 720)\<close> in the tree, the point at \<open>(900, 900)\<close>, outside the rectangle
  \<open>{0, 0, 800, 800}\<close> and dropped by the insertion, leaves the tick with a velocity that
  is not zero.
\<close>

theorem dropped_point_receives_force_counterexample:
  "\<not> contains world_boundary (position (point_init 1 (Vector2f 900 900) (Vector2f 0 0)))
   \<and> simulation_tick 1 world_boundary
        [point_init 1 (Vector2f 720 720) (Vector2f 0 0),
         point_init 1 (Vector2f 900 900) (Vector2f 0 0)]
     = Some [Inr \<lparr>mass = 1, position = Vector2f 720 720, velocity = Vector2f 0 0\<rparr>,
             Inr \<lparr>mass = 1,
                  position = Vector2f (900 - 1 / 924375) (900 - 1 / 924375),
                  velocity = Vector2f (- 1 / 924375) (- 1 / 924375)\<rparr>]"
  by (simp add: simulation_tick_def build_tree_def step_point_def point_init_def
        world_boundary_def contains_def quad_node_init_def quad_node_is_leaf_def
        SOFTENING_def GRAVITY_CONSTANT_def TIME_STEP_def THETA_def sqrt_65025
        vec_add_def vec_sub_def vec_mul_def vec_div_def)

subsection \<open>C8\<close>

text \<open>
  C8. A node of total mass zero, and a node whose center of mass is the position of the
  target point, leave the point as it is. No call divides by zero: the distance is at
  least \<open>SOFTENING > 0\<close>, the denominator of the force is positive, and the remaining
  divisor, the mass of the target point, is positive in the data model; so for a target
  point of positive mass every call returns a point. The same holds in binary32, where
  the rounded distance and the rounded denominator are still positive.
\<close>

theorem compute_force_no_division_by_zero:
  "(total_mass node = 0 \<or> center_of_mass node = position p
      \<longrightarrow> quad_node_compute_force node p = Inr p
          \<and> quad_node_compute_force_b32 node p = Inr p)
   \<and> (0 < mass p
      \<longrightarrow> (\<exists>q. quad_node_compute_force node p = Inr q)
          \<and> (\<exists>q. quad_node_compute_force_b32 node p = Inr q))
   \<and> 0 < SOFTENING
   \<and> SOFTENING \<le> sqrt (dx * dx + dy * dy + SOFTENING * SOFTENING)
   \<and> 0 < sqrt (dx * dx + dy * dy + SOFTENING * SOFTENING)
          * sqrt (dx * dx + dy * dy + SOFTENING * SOFTENING) + SOFTENING * SOFTENING
   \<and> 0 < fsqrt (fadd (fadd (fmul dx dx) (fmul dy dy)) (fmul SOFTENING SOFTENING))
   \<and> 0 < fadd (fmul d d) (fmul SOFTENING SOFTENING)"
proof (intro conjI impI)
  show "0 < SOFTENING" by (simp add: SOFTENING_def)
  show "SOFTENING \<le> sqrt (dx * dx + dy * dy + SOFTENING * SOFTENING)" by (rule distance_ge)
  show "0 < sqrt (dx * dx + dy * dy + SOFTENING * SOFTENING)
          * sqrt (dx * dx + dy * dy + SOFTENING * SOFTENING) + SOFTENING * SOFTENING"
    using distance_pos[of dx dy] by (simp add: SOFTENING_def add_pos_pos)
  show "\<exists>q. quad_node_compute_force node p = Inr q" if "0 < mass p"
    using that by (intro compute_force_total) simp
  show "\<exists>q. quad_node_compute_force_b32 node p = Inr q" if "0 < mass p"
    using that compute_force_b32_total[of p node] by auto
  show "0 < fsqrt (fadd (fadd (fmul dx dx) (fmul dy dy)) (fmul SOFTENING SOFTENING))"
    by (rule softened_distance_b32_pos)
  show "0 < fadd (fmul d d) (fmul SOFTENING SOFTENING)"
    by (rule force_denominator_b32_pos)
qed (auto intro: compute_force_skip compute_force_b32_skip)

text \<open>
  The first two lines are a node whose center of mass is the position of the target
  point; the others are a leaf of mass 1 at \<open>(20, 0)\<close> acting on a point of mass 2 at
  the origin, where the distance is 25, the denominator of the force is 850, and the
  three divisions are carried out, in exact arithmetic and in binary32.
\<close>

theorem compute_force_no_division_by_zero_witness:
  "quad_node_compute_force (Quad_node 1 (Vector2f 0 0) world_boundary None [])
       (point_init 2 (Vector2f 0 0) (Vector2f 0 0))
     = Inr (point_init 2 (Vector2f 0 0) (Vector2f 0 0))
   \<and> quad_node_compute_force_b32 (Quad_node 1 (Vector2f 0 0) world_boundary None [])
       (point_init 2 (Vector2f 0 0) (Vector2f 0 0))
     = Inr (point_init 2 (Vector2f 0 0) (Vector2f 0 0))
   \<and> quad_node_compute_force (Quad_node 1 (Vector2f 20 0) world_boundary None [])
       (point_init 2 (Vector2f 0 0) (Vector2f 0 0))
     = Inr \<lparr>mass = 2, position = Vector2f 0 0, velocity = Vector2f (2 / 21250) 0\<rparr>
   \<and> quad_node_compute_force_b32 (Quad_node 1 (Vector2f 20 0) world_boundary None [])
       (point_init 2 (Vector2f 0 0) (Vector2f 0 0))
     = Inr \<lparr>mass = 2, position = Vector2f 0 0,
            velocity = Vector2f (12935431 / 2 ^ 37) 0\<rparr>
   \<and> sqrt (20 * 20 + 0 * 0 + SOFTENING * SOFTENING) = 25
   \<and> SOFTENING \<le> sqrt (20 * 20 + 0 * 0 + SOFTENING * SOFTENING)
   \<and> fsqrt (fadd (fadd (fmul 20 20) (fmul 0 0)) (fmul SOFTENING SOFTENING)) = 25
   \<and> fadd (fmul 25 25) (fmul SOFTENING SOFTENING) = 850"
proof -
  have b: "quad_node_compute_force_b32 (Quad_node 1 (Vector2f 20 0) world_boundary None [])
       (point_init 2 (Vector2f 0 0) (Vector2f 0 0))
     = Inr \<lparr>mass = 2, position = Vector2f 0 0,
            velocity = Vector2f (12935431 / 2 ^ 37) 0\<rparr>"
    "fsqrt (fadd (fadd (fmul 20 20) (fmul 0 0)) (fmul SOFTENING SOFTENING)) = 25"
    "fadd (fmul 25 25) (fmul SOFTENING SOFTENING) = 850"
    by (simp_all add: point_init_def quad_node_is_leaf_def world_boundary_def force_b32_eval
        sqrt_625 b32_eval)
  show ?thesis
    using compute_force_no_division_by_zero
       [of "Quad_node 1 (Vector2f 0 0) world_boundary None []"
           "point_init 2 (Vector2f 0 0) (Vector2f 0 0)" 20 0 25]
      compute_force_no_division_by_zero
       [of "Quad_node 1 (Vector2f 20 0) world_boundary None []"
           "point_init 2 (Vector2f 0 0) (Vector2f 0 0)" 20 0 25]
    unfolding b
    by (simp add: point_init_def quad_node_is_leaf_def Let_def SOFTENING_def
          GRAVITY_CONSTANT_def TIME_STEP_def vec_add_def vec_mul_def vec_div_def vec_sub_def)
qed

subsection \<open>C9\<close>

text \<open>
  C9. Running \<^verbatim>\<open>quad_node_compute_mass\<close> a second time changes nothing: the tree after
  the second run, with every \<open>total_mass\<close> and \<open>center_of_mass\<close> in it, is the tree
  after the first. This holds for every tree, built by insertions or not.
\<close>

theorem compute_mass_idempotent:
  "quad_node_compute_mass (quad_node_compute_mass node) = quad_node_compute_mass node"
proof (induction node)
  case (Quad_node tm com b pt cs)
  have m: "map (quad_node_compute_mass \<circ> quad_node_compute_mass) cs = map quad_node_compute_mass cs"
    using Quad_node.IH by simp
  show ?case
  proof (cases "cs = []")
    case True
    then show ?thesis by (cases pt) (simp_all add: quad_node_is_leaf_def)
  next
    case False
    then show ?thesis by (simp add: quad_node_is_leaf_def Let_def m)
  qed
qed

subsection \<open>C10\<close>




end
